theory Spec2Isabelle
  imports Main "HOL-Library.Word"
begin

unbundle bit_operations_syntax

section \<open>Errors and the caller's context\<close>

text \<open>
  Go error values of package \<^verbatim>\<open>upload\<close>. \<open>ContextCanceled\<close> is what
  \<^verbatim>\<open>ctx.Err()\<close> returns once the caller's context (made by
  \<^verbatim>\<open>context.WithCancel\<close> in the command line front end) has been cancelled;
  \<open>Errorf\<close> is an error made by \<^verbatim>\<open>fmt.Errorf\<close> from a message; \<open>Wrapf\<close> is
  \<^verbatim>\<open>fmt.Errorf("<prefix>: %w", err)\<close>, an error that wraps another one.
\<close>

datatype error = ContextCanceled | Errorf string | Wrapf string error

text \<open>
  A context is cancelled at most once and stays cancelled. It is modelled by the logical
  instant at which the cancellation fires (\<open>None\<close>: it never fires); \<open>ctx_Err c t\<close> is
  \<^verbatim>\<open>ctx.Err() != nil\<close> observed at instant \<open>t\<close>.
\<close>

type_synonym ctx = "nat option"

definition ctx_Err :: "ctx \<Rightarrow> nat \<Rightarrow> bool" where
  "ctx_Err c t = (case c of None \<Rightarrow> False | Some t0 \<Rightarrow> t0 \<le> t)"

section \<open>The retry driver (uploadWithRetry)\<close>

definition maxRetries :: nat where
  "maxRetries = 3"

text \<open>
  What the driver does that the outside can see: it invokes the operation
  (\<open>Invoke i\<close>, the attempt with loop index \<open>i\<close>) and it sits out one full
  \<^verbatim>\<open>retryDelay\<close> (\<open>Delay\<close>, the \<^verbatim>\<open>time.After\<close> case of the select).
\<close>

datatype retry_event = Invoke nat | Delay

text \<open>
  \<^verbatim>\<open>
  func (u *Uploader) uploadWithRetry(ctx context.Context, fn func() error) error {
      var err error
      for i := 0; i < maxRetries; i++ {
          if ctx.Err() != nil { return ctx.Err() }
          err = fn()
          if err == nil { return nil }
          if i < maxRetries-1 {
              select {
              case <-ctx.Done(): return ctx.Err()
              case <-time.After(retryDelay):
              }
          }
      }
      return err
  }
  \<close>
  The operation is a closure with effects: \<open>fn i\<close> is the outcome of its invocation in
  iteration \<open>i\<close> (\<open>None\<close> is a nil error). Iteration \<open>i\<close> reads the context twice: at
  instant \<open>2 * i\<close>, the check before the attempt, and at instant \<open>2 * i + 1\<close>, the
  select that ends the wait after the attempt. A select with both cases ready picks
  either; \<open>timer_wins i\<close> says that in iteration \<open>i\<close> it picks the timer although the
  context is done. The loop carries \<open>err\<close> and the trace of events so far.
\<close>

function retry_loop ::
  "ctx \<Rightarrow> (nat \<Rightarrow> bool) \<Rightarrow> (nat \<Rightarrow> error option) \<Rightarrow> nat \<Rightarrow> error option \<Rightarrow> retry_event list
    \<Rightarrow> error option \<times> retry_event list" where
  "retry_loop c timer_wins fn i err tr =
     (if i < maxRetries then
        if ctx_Err c (2 * i) then (Some ContextCanceled, tr)
        else (case fn i of
            None \<Rightarrow> (None, tr @ [Invoke i])
          | Some e \<Rightarrow>
              if i < maxRetries - 1 then
                if ctx_Err c (2 * i + 1) \<and> \<not> timer_wins i
                then (Some ContextCanceled, tr @ [Invoke i])
                else retry_loop c timer_wins fn (i + 1) (Some e) (tr @ [Invoke i, Delay])
              else retry_loop c timer_wins fn (i + 1) (Some e) (tr @ [Invoke i]))
      else (err, tr))"
  by pat_completeness auto
termination
  by (relation "measure (\<lambda>(c, w, fn, i, err, tr). maxRetries - i)") auto

definition uploadWithRetry ::
  "ctx \<Rightarrow> (nat \<Rightarrow> bool) \<Rightarrow> (nat \<Rightarrow> error option) \<Rightarrow> error option \<times> retry_event list" where
  "uploadWithRetry c timer_wins fn = retry_loop c timer_wins fn 0 None []"

definition invocations :: "retry_event list \<Rightarrow> nat" where
  "invocations tr = length (filter (\<lambda>e. e \<noteq> Delay) tr)"

definition delays :: "retry_event list \<Rightarrow> nat" where
  "delays tr = length (filter (\<lambda>e. e = Delay) tr)"

section \<open>Part numbers and part boundaries\<close>

text \<open>
  Go's \<^verbatim>\<open>int64\<close> arithmetic wraps around: \<open>int64 x\<close> is the value an
  \<^verbatim>\<open>int64\<close> holds after a computation whose exact result is \<open>x\<close>. Go's
  \<^verbatim>\<open>int\<close> is taken to be 64 bits wide, as it is on the 64-bit platforms the program
  is built for, so the same function gives the arithmetic of \<^verbatim>\<open>int\<close>. The
  counter of the parts that the multipart transfer has started is the one exception: it
  counts goroutines and is modelled by an unbounded integer.
\<close>

definition int64 :: "int \<Rightarrow> int" where
  "int64 x = signed_take_bit 63 x"

text \<open>
  \<^verbatim>\<open>
  func generatePartNumbers(start, end int) []int {
      nums := make([]int, 0, end-start+1)
      for i := start; i <= end; i++ { nums = append(nums, i) }
      return nums
  }
  \<close>
  The capacity \<^verbatim>\<open>end-start+1\<close> is computed in \<^verbatim>\<open>int\<close> and wraps around.
  \<^verbatim>\<open>make\<close> (the runtime's \<^verbatim>\<open>makeslice\<close>) panics when the capacity is negative or
  when the memory for it, 8 bytes for each \<^verbatim>\<open>int\<close>, is more than the runtime
  allocates at once (\<^verbatim>\<open>maxAlloc\<close>, \<open>2 ^ 48\<close> bytes on linux/amd64 and the other
  platforms with 48 bits of heap addresses); a capacity
  of zero is allowed. Whether the machine has the memory that the runtime grants is not
  modelled. The counter of the loop wraps around too, so the condition of the loop is
  always true when \<^verbatim>\<open>end\<close> is the largest \<^verbatim>\<open>int\<close>: the function appends without
  end and does not return, which is the result \<open>None\<close>. A panic is the left injection,
  with the message of the runtime.
\<close>

definition maxAlloc :: int where
  "maxAlloc = 2 ^ 48"

partial_function (option) gpn_loop :: "int \<Rightarrow> int \<Rightarrow> int list \<Rightarrow> int list option" where
  "gpn_loop i endN nums =
     (if i \<le> endN then gpn_loop (int64 (i + 1)) endN (nums @ [i]) else Some nums)"

declare gpn_loop.simps [code]

definition generatePartNumbers :: "int \<Rightarrow> int \<Rightarrow> (string + int list) option" where
  "generatePartNumbers start endN =
     (let cap = int64 (int64 (endN - start) + 1) in
      if cap < 0 \<or> maxAlloc < 8 * cap
      then Some (Inl ''runtime error: makeslice: cap out of range'')
      else map_option Inr (gpn_loop start endN []))"

text \<open>
  The part boundaries of uploadMultipart:
  \<^verbatim>\<open>
      offset := int64(partNum-1) * initResp.PartSize
      partSize := initResp.PartSize
      if partNum == initResp.TotalParts {
          partSize = size - offset // Last part may be smaller
      }
  \<close>
  \<open>fsize\<close> is the parameter \<^verbatim>\<open>size\<close>, the size of the file.
\<close>

definition part_offset :: "int \<Rightarrow> int \<Rightarrow> int" where
  "part_offset PartSize partNum = int64 (int64 (partNum - 1) * PartSize)"

definition part_length :: "int \<Rightarrow> int \<Rightarrow> int \<Rightarrow> int \<Rightarrow> int" where
  "part_length fsize PartSize TotalParts partNum =
     (if partNum = TotalParts then int64 (fsize - part_offset PartSize partNum) else PartSize)"

section \<open>The progress and checksum stream (progressReader)\<close>

text \<open>
  CRC-32 as package \<^verbatim>\<open>hash/crc32\<close> of the Go standard library computes it: a table
  made from the reversed polynomial (\<^verbatim>\<open>simpleMakeTable\<close>), and the byte-wise update
  \<^verbatim>\<open>crc = tab[byte(crc)^v] ^ (crc >> 8)\<close> between two complements
  (\<^verbatim>\<open>simpleUpdate\<close>, which \<^verbatim>\<open>crc32.Update\<close> agrees with for every table).
\<close>

type_synonym byte = "8 word"
type_synonym uint32 = "32 word"

definition IEEE :: uint32 where
  "IEEE = 0xedb88320"

definition table_bit :: "uint32 \<Rightarrow> uint32 \<Rightarrow> uint32" where
  "table_bit poly crc = (if crc AND 1 = 1 then drop_bit 1 crc XOR poly else drop_bit 1 crc)"

definition simpleMakeTable :: "uint32 \<Rightarrow> byte \<Rightarrow> uint32" where
  "simpleMakeTable poly i = (table_bit poly ^^ 8) (ucast i)"

definition IEEETable :: "byte \<Rightarrow> uint32" where
  "IEEETable = simpleMakeTable IEEE"

definition simpleUpdate_byte :: "(byte \<Rightarrow> uint32) \<Rightarrow> uint32 \<Rightarrow> byte \<Rightarrow> uint32" where
  "simpleUpdate_byte tab crc v = tab (ucast crc XOR v) XOR drop_bit 8 crc"

definition crc32_Update :: "uint32 \<Rightarrow> (byte \<Rightarrow> uint32) \<Rightarrow> byte list \<Rightarrow> uint32" where
  "crc32_Update crc tab p = NOT (foldl (simpleUpdate_byte tab) (NOT crc) p)"

definition ChecksumIEEE :: "byte list \<Rightarrow> uint32" where
  "ChecksumIEEE p = crc32_Update 0 IEEETable p"



text \<open>
  \<^verbatim>\<open>
  type progressReader struct {
      reader     io.Reader
      total      int64
      uploaded   int64
      onProgress func(uploaded, total int64)
      hasher     *crc32.Table
      crc        uint32
  }
  func (pr *progressReader) Read(p []byte) (int, error) {
      n, err := pr.reader.Read(p)
      if n > 0 {
          pr.uploaded += int64(n)
          if pr.hasher != nil { pr.crc = crc32.Update(pr.crc, pr.hasher, p[:n]) }
          if pr.onProgress != nil { pr.onProgress(pr.uploaded, pr.total) }
      }
      return n, err
  }
  \<close>
  The wrapped reader is the environment: one read of it delivers the bytes \<open>data\<close>
  (\<^verbatim>\<open>p[:n]\<close>, so \<open>n = length data\<close>) together with an error or nil; end of stream is
  the error \<^verbatim>\<open>io.EOF\<close>. \<open>pr_onProgress\<close> says whether a callback is set; \<open>Read\<close>
  returns what the method returns, the callback invocations it made, with their
  arguments, and the reader after the call. \<open>Reads\<close> is a sequence of calls. The byte
  counter is an \<^verbatim>\<open>int64\<close>: the addition wraps around.
\<close>

record progressReader =
  pr_total :: int
  pr_uploaded :: int
  pr_onProgress :: bool
  pr_hasher :: "(byte \<Rightarrow> uint32) option"
  pr_crc :: uint32

definition Read ::
  "progressReader \<Rightarrow> byte list \<times> error option
    \<Rightarrow> (nat \<times> error option) \<times> (int \<times> int) list \<times> progressReader" where
  "Read pr rd =
     (let (data, err) = rd; n = length data in
      if n > 0 then
        let pr1 = pr\<lparr>pr_uploaded := int64 (pr_uploaded pr + int64 (int n))\<rparr>;
            pr2 = (case pr_hasher pr1 of
                     Some tab \<Rightarrow> pr1\<lparr>pr_crc := crc32_Update (pr_crc pr1) tab data\<rparr>
                   | None \<Rightarrow> pr1)
        in ((n, err), (if pr_onProgress pr2 then [(pr_uploaded pr2, pr_total pr2)] else []), pr2)
      else ((n, err), [], pr))"

fun Reads ::
  "progressReader \<Rightarrow> (byte list \<times> error option) list \<Rightarrow> (int \<times> int) list \<times> progressReader" where
  "Reads pr [] = ([], pr)"
| "Reads pr (rd # rds) =
     (case Read pr rd of (ret, cbs, pr') \<Rightarrow>
        (case Reads pr' rds of (cbs', pr'') \<Rightarrow> (cbs @ cbs', pr'')))"

section \<open>Formatting (strconv.Itoa, humanSize)\<close>

text \<open>
  \<^verbatim>\<open>strconv.Itoa\<close> and the verb \<^verbatim>\<open>%d\<close>: the decimal digits of an integer, with a
  minus sign when it is negative.
\<close>

definition digit_char :: "nat \<Rightarrow> char" where
  "digit_char d = ''0123456789'' ! d"

function nat_digits :: "nat \<Rightarrow> string" where
  "nat_digits n = (if n < 10 then [digit_char n] else nat_digits (n div 10) @ [digit_char (n mod 10)])"
  by pat_completeness auto
termination
  by (relation "measure id") auto

definition Itoa :: "int \<Rightarrow> string" where
  "Itoa i = (if i < 0 then CHR ''-'' # nat_digits (nat (- i)) else nat_digits (nat i))"


text \<open>
  Rounding of the exact quotient \<open>n / d\<close> (\<open>d > 0\<close>) to the nearest integer, a tie
  going to the even neighbour. Both the conversion of an integer to \<^verbatim>\<open>float64\<close> and
  the verb \<^verbatim>\<open>%.1f\<close> round this way.
\<close>

definition round_half_even :: "int \<Rightarrow> int \<Rightarrow> int" where
  "round_half_even n d =
     (let q = n div d; r = n mod d
      in if 2 * r > d \<or> (2 * r = d \<and> odd q) then q + 1 else q)"

text \<open>
  \<open>float64 x\<close> is the exact value of the Go conversion \<^verbatim>\<open>float64(x)\<close> of an
  \<^verbatim>\<open>int64\<close>: a double has 53 significant bits, so an integer of more bits loses its
  last \<open>f64_shift x\<close> bits by rounding. The value is again an integer.
\<close>

function f64_shift :: "int \<Rightarrow> nat" where
  "f64_shift x = (if x < 2 ^ 53 then 0 else Suc (f64_shift (x div 2)))"
  by pat_completeness auto
termination
  by (relation "measure nat") auto

definition float64 :: "int \<Rightarrow> int" where
  "float64 x = sgn x * (round_half_even (abs x) (2 ^ f64_shift (abs x)) * 2 ^ f64_shift (abs x))"


text \<open>
  \<^verbatim>\<open>
  func humanSize(bytes int64) string {
      const unit = 1024
      if bytes < unit { return fmt.Sprintf("%d B", bytes) }
      div, exp := int64(unit), 0
      for n := bytes / unit; n >= unit; n /= unit {
          div *= unit
          exp++
      }
      return fmt.Sprintf("%.1f %cB", float64(bytes)/float64(div), "KMGTPE"[exp])
  }
  \<close>
  \<open>hs_loop\<close> is the loop (in it \<open>n\<close> is at least 1024, where Go's truncating division
  is \<open>div\<close>). \<open>hs_value\<close> is what the function is about to print: the bytes themselves
  (\<open>Plain\<close>), or the quotient in tenths, as \<^verbatim>\<open>%.1f\<close> rounds it, with the index of
  the unit (\<open>Scaled\<close>). The divisor is a power of two, so the division of the two doubles
  is exact, and the tenths are the exact quotient \<open>10 * float64 bytes / float64 div\<close>
  rounded to the nearest integer, ties to even. \<open>hs_render\<close> is the formatting; indexing
  the string of units past its end panics. \<open>magnitude\<close> is the quantity a printed
  size stands for, in tenths of a byte.
\<close>

function hs_loop :: "int \<Rightarrow> int \<Rightarrow> nat \<Rightarrow> int \<times> nat" where
  "hs_loop n dv ex = (if n \<ge> 1024 then hs_loop (n div 1024) (int64 (dv * 1024)) (ex + 1) else (dv, ex))"
  by pat_completeness auto
termination
  by (relation "measure (\<lambda>(n, dv, ex). nat n)") auto

datatype hsize = Plain int | Scaled int nat

definition hs_value :: "int \<Rightarrow> hsize" where
  "hs_value bytes =
     (if bytes < 1024 then Plain bytes
      else (case hs_loop (bytes div 1024) 1024 0 of
              (dv, ex) \<Rightarrow> Scaled (round_half_even (10 * float64 bytes) (float64 dv)) ex))"

definition hs_render :: "hsize \<Rightarrow> string + string" where
  "hs_render h =
     (case h of
        Plain b \<Rightarrow> Inr (Itoa b @ '' B'')
      | Scaled t ex \<Rightarrow>
          if ex < length ''KMGTPE''
          then Inr (Itoa (t div 10) @ ''.'' @ Itoa (t mod 10) @ '' '' @ [''KMGTPE'' ! ex] @ ''B'')
          else Inl ''index out of range'')"

definition humanSize :: "int \<Rightarrow> string + string" where
  "humanSize bytes = hs_render (hs_value bytes)"

definition magnitude :: "hsize \<Rightarrow> int" where
  "magnitude h = (case h of Plain b \<Rightarrow> 10 * b | Scaled t ex \<Rightarrow> t * 1024 ^ (ex + 1))"

section \<open>The multipart transfer (uploadMultipart)\<close>

text \<open>
  The parts of the negotiation response (\<^verbatim>\<open>api.InitUploadResponse\<close>) that
  uploadMultipart reads. \<open>InitialURLs\<close> is a Go map keyed by the part number in decimal;
  \<open>None\<close> is the nil map that decoding leaves when the response has no such field.
  A completed part is \<^verbatim>\<open>api.Part\<close>.
\<close>

record InitUploadResponse =
  UploadID :: string
  PartSize :: int
  TotalParts :: int
  InitialURLs :: "(string \<rightharpoonup> string) option"

record Part =
  PartNumber :: int
  ETag :: string

text \<open>
  The calls to the remote service that the transfer makes, in the order it makes them,
  each with the context it is given: the caller's, or a fresh one derived from
  \<^verbatim>\<open>context.Background()\<close> with a timeout in seconds.
\<close>

datatype ctx_kind = CallerCtx | BackgroundTimeout nat

datatype api_call =
    GetPartURLs ctx_kind string "int list"
  | CompleteMultipart ctx_kind string "Part list"
  | AbortUpload ctx_kind string

text \<open>
  The environment of one transfer: what the service replies to the request for the URLs
  of the parts from a given part number on (an error, or the decoded object
  \<^verbatim>\<open>urls\<close> as a list of key and value), what uploadPart returns for a part (an error
  after its retries, or the ETag), what the service replies to the finalize call, how
  the local CRC-32 computation ends, and what the service replies to an abort.
\<close>

record mp_env =
  GetPartURLs_reply :: "int \<Rightarrow> error + (string \<times> string) list"
  uploadPart_result :: "int \<Rightarrow> error + string"
  CompleteMultipart_reply :: "Part list \<Rightarrow> error option"
  crc_result :: "error + 32 word"
  AbortUpload_reply :: "error option"

definition concurrentParts :: nat where
  "concurrentParts = 4"

definition partURLBatchSize :: int where
  "partURLBatchSize = 50"

definition min_go :: "int \<Rightarrow> int \<Rightarrow> int" where
  "min_go a b = (if a < b then a else b)"

text \<open>
  A part's goroutine, with the arguments it was started with. It is \<open>Uploading\<close> while
  uploadPart runs; \<open>Recorded\<close> once it has stored the error in \<^verbatim>\<open>uploadErr\<close> or
  appended the part to \<^verbatim>\<open>parts\<close>; \<open>Released\<close> once its first deferred call has
  given the semaphore slot back; it is gone once its second deferred call,
  \<^verbatim>\<open>wg.Done()\<close>, has run.
\<close>

datatype stage = Uploading | Recorded | Released

record goroutine =
  pNum :: int
  pURL :: string
  pOffset :: int
  pSize :: int
  g_stage :: stage

text \<open>
  How the function ends: it returns (an error, or the CRC-32), or it panics. Its
  deferred function runs in both cases.
\<close>

datatype outcome = Return "error + 32 word" | Panic string

text \<open>
  Where the main goroutine stands. Each point is one read of state that other goroutines
  or the caller change (the context, \<^verbatim>\<open>uploadErr\<close>, the semaphore, the wait group)
  or one call to the service:
  \<open>LoopHead\<close> the loop condition and the check of the context (lines 524 to 528 of the
  source file), \<open>CheckErr\<close> the check of \<^verbatim>\<open>uploadErr\<close> (529), \<open>GetURL\<close> the lookup
  of the part's URL, with the request for more URLs when it is missing, and the part's
  boundaries (534 to 557), \<open>Acquire\<close> the acquisition of a semaphore slot and the start
  of the goroutine (559 to 584), \<open>WaitAll\<close> \<^verbatim>\<open>wg.Wait()\<close> (587), \<open>CheckCtx\<close> (590),
  \<open>CheckUploadErr\<close> (594), \<open>Complete\<close> the finalize call (599), \<open>ComputeCRC\<close> (609 to
  615), \<open>Deferred\<close> the deferred function (502 to 510), \<open>Finished\<close> the end.
\<close>

datatype mp_pc =
    LoopHead | CheckErr | GetURL | Acquire string int int
  | WaitAll | CheckCtx | CheckUploadErr | Complete | ComputeCRC
  | Deferred outcome | Finished outcome

record mp_state =
  pc :: mp_pc
  partNum :: int
  urls :: "(string \<rightharpoonup> string) option"
  goroutines :: "goroutine list"
  parts :: "Part list"
  uploadErr :: "error option"
  cancelled :: bool
  calls :: "api_call list"

definition init_state :: "InitUploadResponse \<Rightarrow> mp_state" where
  "init_state ir =
     \<lparr>pc = LoopHead, partNum = 1, urls = InitialURLs ir, goroutines = [], parts = [],
      uploadErr = None, cancelled = False, calls = []\<rparr>"

text \<open>Go maps: reading a nil map finds nothing, writing to it panics.\<close>

definition lookup_url :: "(string \<rightharpoonup> string) option \<Rightarrow> string \<Rightarrow> string option" where
  "lookup_url m k = (case m of None \<Rightarrow> None | Some f \<Rightarrow> f k)"

definition json_object :: "(string \<times> string) list \<Rightarrow> (string \<rightharpoonup> string)" where
  "json_object kvs = foldl (\<lambda>f kv. f(fst kv \<mapsto> snd kv)) Map.empty kvs"

definition merge_urls ::
  "(string \<rightharpoonup> string) option \<Rightarrow> (string \<times> string) list \<Rightarrow> string + (string \<rightharpoonup> string) option" where
  "merge_urls m kvs =
     (case m of
        None \<Rightarrow> if kvs = [] then Inr None else Inl ''assignment to entry in nil map''
      | Some f \<Rightarrow> Inr (Some (foldl (\<lambda>f kv. f(fst kv \<mapsto> snd kv)) f kvs)))"

definition sem_held :: "mp_state \<Rightarrow> nat" where
  "sem_held s = length (filter (\<lambda>g. g_stage g \<noteq> Released) (goroutines s))"

definition stage_of :: "goroutine list \<Rightarrow> int \<Rightarrow> stage option" where
  "stage_of gs p = map_of (map (\<lambda>g. (pNum g, g_stage g)) gs) p"

definition set_stage :: "int \<Rightarrow> stage \<Rightarrow> goroutine list \<Rightarrow> goroutine list" where
  "set_stage p st gs = map (\<lambda>g. if pNum g = p then g\<lparr>g_stage := st\<rparr> else g) gs"

definition get_url_step ::
  "InitUploadResponse \<Rightarrow> int \<Rightarrow> mp_env \<Rightarrow> mp_state \<Rightarrow> mp_state option" where
  "get_url_step ir fsize env s =
     (let n = partNum s;
          off = part_offset (PartSize ir) n;
          len = part_length fsize (PartSize ir) (TotalParts ir) n
      in case lookup_url (urls s) (Itoa n) of
           Some url \<Rightarrow> Some (s\<lparr>pc := Acquire url off len\<rparr>)
         | None \<Rightarrow>
            (case generatePartNumbers n
                    (min_go (int64 (int64 (n + partURLBatchSize) - 1)) (TotalParts ir)) of
               None \<Rightarrow> None
             | Some (Inl msg) \<Rightarrow> Some (s\<lparr>pc := Deferred (Panic msg)\<rparr>)
             | Some (Inr nums) \<Rightarrow>
                (let s1 = s\<lparr>calls := calls s @ [GetPartURLs CallerCtx (UploadID ir) nums]\<rparr>
                 in case GetPartURLs_reply env n of
                      Inl err \<Rightarrow>
                        Some (s1\<lparr>pc := Deferred
                                        (Return (Inl (Wrapf ''failed to get upload URLs'' err)))\<rparr>)
                    | Inr kvs \<Rightarrow>
                       (case merge_urls (urls s1) kvs of
                          Inl msg \<Rightarrow> Some (s1\<lparr>pc := Deferred (Panic msg)\<rparr>)
                        | Inr m \<Rightarrow>
                            Some (s1\<lparr>urls := m,
                                    pc := Acquire (case json_object kvs (Itoa n) of
                                                     Some u \<Rightarrow> u | None \<Rightarrow> []) off len\<rparr>)))))"

text \<open>
  One step of the main goroutine; \<open>None\<close> when it cannot move: it waits for a semaphore
  slot or for the wait group, it is in a call of generatePartNumbers that does not
  return, or the function has ended.
\<close>

definition main_step :: "InitUploadResponse \<Rightarrow> int \<Rightarrow> mp_env \<Rightarrow> mp_state \<Rightarrow> mp_state option" where
  "main_step ir fsize env s =
     (case pc s of
        LoopHead \<Rightarrow>
          Some (if partNum s \<le> TotalParts ir \<and> \<not> cancelled s
                then s\<lparr>pc := CheckErr\<rparr> else s\<lparr>pc := WaitAll\<rparr>)
      | CheckErr \<Rightarrow>
          Some (if uploadErr s \<noteq> None then s\<lparr>pc := WaitAll\<rparr> else s\<lparr>pc := GetURL\<rparr>)
      | GetURL \<Rightarrow> get_url_step ir fsize env s
      | Acquire url off len \<Rightarrow>
          if sem_held s < concurrentParts
          then Some (s\<lparr>goroutines := goroutines s @
                          [\<lparr>pNum = partNum s, pURL = url, pOffset = off, pSize = len,
                            g_stage = Uploading\<rparr>],
                        partNum := partNum s + 1, pc := LoopHead\<rparr>)
          else None
      | WaitAll \<Rightarrow> if goroutines s = [] then Some (s\<lparr>pc := CheckCtx\<rparr>) else None
      | CheckCtx \<Rightarrow>
          Some (if cancelled s
                then s\<lparr>pc := Deferred (Return (Inl (Errorf ''upload cancelled'')))\<rparr>
                else s\<lparr>pc := CheckUploadErr\<rparr>)
      | CheckUploadErr \<Rightarrow>
          Some (case uploadErr s of
                  Some e \<Rightarrow> s\<lparr>pc := Deferred (Return (Inl e))\<rparr>
                | None \<Rightarrow> s\<lparr>pc := Complete\<rparr>)
      | Complete \<Rightarrow>
          Some (let s1 = s\<lparr>calls := calls s @ [CompleteMultipart CallerCtx (UploadID ir) (parts s)]\<rparr>
                in case CompleteMultipart_reply env (parts s) of
                     Some err \<Rightarrow>
                       s1\<lparr>pc := Deferred (Return (Inl (Wrapf ''failed to complete upload'' err)))\<rparr>
                   | None \<Rightarrow> s1\<lparr>pc := ComputeCRC\<rparr>)
      | ComputeCRC \<Rightarrow>
          Some (case crc_result env of
                  Inl err \<Rightarrow>
                    s\<lparr>pc := Deferred (Return (Inl (Wrapf ''failed to compute CRC-32'' err)))\<rparr>
                | Inr c \<Rightarrow> s\<lparr>pc := Deferred (Return (Inr c))\<rparr>)
      | Deferred out \<Rightarrow>
          Some (if cancelled s \<and> UploadID ir \<noteq> []
                then s\<lparr>calls := calls s @ [AbortUpload (BackgroundTimeout 10) (UploadID ir)],
                       pc := Finished out\<rparr>
                else s\<lparr>pc := Finished out\<rparr>)
      | Finished out \<Rightarrow> None)"

text \<open>
  The steps of a part's goroutine: uploadPart returns and the result is recorded
  (\<^verbatim>\<open>uploadErr.CompareAndSwap(nil, ...)\<close> keeps the first error), the semaphore slot is
  released, the wait group is told.
\<close>

definition part_done :: "mp_env \<Rightarrow> int \<Rightarrow> mp_state \<Rightarrow> mp_state option" where
  "part_done env p s =
     (if stage_of (goroutines s) p = Some Uploading then
        Some (case uploadPart_result env p of
                Inl err \<Rightarrow>
                  s\<lparr>uploadErr := (case uploadErr s of
                                     None \<Rightarrow> Some (Wrapf (''part '' @ Itoa p @ '' failed'') err)
                                   | Some e \<Rightarrow> Some e),
                     goroutines := set_stage p Recorded (goroutines s)\<rparr>
              | Inr etag \<Rightarrow>
                  s\<lparr>parts := parts s @ [\<lparr>PartNumber = p, ETag = etag\<rparr>],
                     goroutines := set_stage p Recorded (goroutines s)\<rparr>)
      else None)"

definition part_release :: "int \<Rightarrow> mp_state \<Rightarrow> mp_state option" where
  "part_release p s =
     (if stage_of (goroutines s) p = Some Recorded
      then Some (s\<lparr>goroutines := set_stage p Released (goroutines s)\<rparr>) else None)"

definition part_exit :: "int \<Rightarrow> mp_state \<Rightarrow> mp_state option" where
  "part_exit p s =
     (if stage_of (goroutines s) p = Some Released
      then Some (s\<lparr>goroutines := filter (\<lambda>g. pNum g \<noteq> p) (goroutines s)\<rparr>) else None)"

text \<open>
  A run is a schedule: the order in which the main goroutine and the parts' goroutines
  take their steps and the moment at which the caller cancels the context. A step that
  cannot be taken in the state reached makes the schedule impossible (\<open>None\<close>). The run
  is over when the function has ended.
\<close>

datatype event = Cancel | Main | PartDone int | PartRelease int | PartExit int

definition step ::
  "InitUploadResponse \<Rightarrow> int \<Rightarrow> mp_env \<Rightarrow> event \<Rightarrow> mp_state \<Rightarrow> mp_state option" where
  "step ir fsize env e s =
     (case pc s of
        Finished out \<Rightarrow> None
      | _ \<Rightarrow>
         (case e of
            Cancel \<Rightarrow> Some (s\<lparr>cancelled := True\<rparr>)
          | Main \<Rightarrow> main_step ir fsize env s
          | PartDone p \<Rightarrow> part_done env p s
          | PartRelease p \<Rightarrow> part_release p s
          | PartExit p \<Rightarrow> part_exit p s))"

fun exec ::
  "InitUploadResponse \<Rightarrow> int \<Rightarrow> mp_env \<Rightarrow> event list \<Rightarrow> mp_state \<Rightarrow> mp_state option" where
  "exec ir fsize env [] s = Some s"
| "exec ir fsize env (e # es) s =
     (case step ir fsize env e s of None \<Rightarrow> None | Some s' \<Rightarrow> exec ir fsize env es s')"

definition uploadMultipart ::
  "InitUploadResponse \<Rightarrow> int \<Rightarrow> mp_env \<Rightarrow> event list \<Rightarrow> mp_state option" where
  "uploadMultipart ir fsize env sched = exec ir fsize env sched (init_state ir)"

text \<open>What a run shows to the outside.\<close>

definition complete_calls :: "mp_state \<Rightarrow> Part list list" where
  "complete_calls s = concat (map (\<lambda>c. case c of CompleteMultipart k u ps \<Rightarrow> [ps] | _ \<Rightarrow> []) (calls s))"

definition abort_calls :: "mp_state \<Rightarrow> api_call list" where
  "abort_calls s = filter (\<lambda>c. case c of AbortUpload k u \<Rightarrow> True | _ \<Rightarrow> False) (calls s)"

definition part_numbers :: "Part list \<Rightarrow> int list" where
  "part_numbers ps = map PartNumber ps"

text \<open>
  The parts in the order in which their uploads completed with success, read off the
  schedule.
\<close>

definition completion_order :: "mp_env \<Rightarrow> event list \<Rightarrow> int list" where
  "completion_order env sched =
     concat (map (\<lambda>e. case e of
                        PartDone p \<Rightarrow> (case uploadPart_result env p of Inr etag \<Rightarrow> [p] | Inl err \<Rightarrow> [])
                      | _ \<Rightarrow> []) sched)"

text \<open>
  Invariants of the runs. \<open>inv_parts\<close>: the parts whose goroutine has been started are
  those below \<^verbatim>\<open>partNum\<close>; each of them is still uploading, or is in \<^verbatim>\<open>parts\<close>
  (once), or an error has been recorded. \<open>inv_ctl\<close>: what the main goroutine knows at
  each point; \<open>finalized\<close> is the state in which the finalize call has been made.
  \<open>inv_abort\<close>: the abort call is made by the deferred function only. \<open>inv_urls\<close>: the
  part numbers of every request for URLs, and the absence of the panic of
  generatePartNumbers.
\<close>

definition inv_parts :: "mp_state \<Rightarrow> bool" where
  "inv_parts s \<longleftrightarrow>
     1 \<le> partNum s
     \<and> distinct (map pNum (goroutines s)) \<and> set (map pNum (goroutines s)) \<subseteq> {1..<partNum s}
     \<and> distinct (part_numbers (parts s)) \<and> set (part_numbers (parts s)) \<subseteq> {1..<partNum s}
     \<and> (\<forall>g\<in>set (goroutines s). g_stage g = Uploading \<longrightarrow> pNum g \<notin> set (part_numbers (parts s)))
     \<and> (\<forall>p\<in>{1..<partNum s}. stage_of (goroutines s) p = Some Uploading
            \<or> p \<in> set (part_numbers (parts s)) \<or> uploadErr s \<noteq> None)"

definition finalized :: "InitUploadResponse \<Rightarrow> mp_state \<Rightarrow> bool" where
  "finalized ir s \<longleftrightarrow>
     goroutines s = [] \<and> TotalParts ir < partNum s \<and> uploadErr s = None
     \<and> complete_calls s = [parts s]"

definition inv_ctl :: "InitUploadResponse \<Rightarrow> mp_state \<Rightarrow> bool" where
  "inv_ctl ir s \<longleftrightarrow>
     (partNum s \<le> TotalParts ir + 1 \<or> partNum s = 1) \<and>
     (case pc s of
        LoopHead \<Rightarrow> complete_calls s = []
      | CheckErr \<Rightarrow> partNum s \<le> TotalParts ir \<and> complete_calls s = []
      | GetURL \<Rightarrow> partNum s \<le> TotalParts ir \<and> complete_calls s = []
      | Acquire url off len \<Rightarrow> partNum s \<le> TotalParts ir \<and> complete_calls s = []
      | WaitAll \<Rightarrow>
          (TotalParts ir < partNum s \<or> cancelled s \<or> uploadErr s \<noteq> None) \<and> complete_calls s = []
      | CheckCtx \<Rightarrow>
          goroutines s = [] \<and> (TotalParts ir < partNum s \<or> cancelled s \<or> uploadErr s \<noteq> None)
          \<and> complete_calls s = []
      | CheckUploadErr \<Rightarrow>
          goroutines s = [] \<and> (TotalParts ir < partNum s \<or> uploadErr s \<noteq> None)
          \<and> complete_calls s = []
      | Complete \<Rightarrow>
          goroutines s = [] \<and> TotalParts ir < partNum s \<and> uploadErr s = None
          \<and> complete_calls s = []
      | ComputeCRC \<Rightarrow> finalized ir s
      | Deferred out \<Rightarrow>
          (case out of Return (Inr c) \<Rightarrow> finalized ir s
           | _ \<Rightarrow> complete_calls s = [] \<or> finalized ir s)
      | Finished out \<Rightarrow>
          (case out of Return (Inr c) \<Rightarrow> finalized ir s
           | _ \<Rightarrow> complete_calls s = [] \<or> finalized ir s))"

definition inv_abort :: "InitUploadResponse \<Rightarrow> mp_state \<Rightarrow> bool" where
  "inv_abort ir s \<longleftrightarrow>
     (case pc s of
        Finished out \<Rightarrow>
          (if cancelled s \<and> UploadID ir \<noteq> []
           then abort_calls s = [AbortUpload (BackgroundTimeout 10) (UploadID ir)]
                \<and> calls s \<noteq> [] \<and> last (calls s) = AbortUpload (BackgroundTimeout 10) (UploadID ir)
           else abort_calls s = [])
      | _ \<Rightarrow> abort_calls s = [])"

definition urls_request_ok :: "InitUploadResponse \<Rightarrow> api_call \<Rightarrow> bool" where
  "urls_request_ok ir c =
     (case c of
        GetPartURLs k u nums \<Rightarrow>
          (\<exists>p. 1 \<le> p \<and> p \<le> TotalParts ir
               \<and> nums = [p..min (p + partURLBatchSize - 1) (TotalParts ir)])
      | _ \<Rightarrow> True)"

definition inv_urls :: "InitUploadResponse \<Rightarrow> mp_state \<Rightarrow> bool" where
  "inv_urls ir s \<longleftrightarrow>
     list_all (urls_request_ok ir) (calls s)
     \<and> pc s \<noteq> Deferred (Panic ''runtime error: makeslice: cap out of range'')
     \<and> pc s \<noteq> Finished (Panic ''runtime error: makeslice: cap out of range'')"

text \<open>
  \<open>inv_panic\<close>: the only panic of a run is the write to a nil map of URLs, which needs
  a negotiation response without the field \<^verbatim>\<open>initial_urls\<close>.
\<close>

definition inv_panic :: "InitUploadResponse \<Rightarrow> mp_state \<Rightarrow> bool" where
  "inv_panic ir s \<longleftrightarrow>
     (urls s = None \<longleftrightarrow> InitialURLs ir = None)
     \<and> (\<forall>m. pc s = Deferred (Panic m) \<or> pc s = Finished (Panic m) \<longrightarrow>
            m = ''assignment to entry in nil map'' \<and> InitialURLs ir = None)"

text \<open>
  Progress towards the end of the function: the parts still to start, the points the
  main goroutine still has to pass, and the steps the goroutines still have to take.
\<close>

definition pc_rank :: "mp_pc \<Rightarrow> nat" where
  "pc_rank p =
     (case p of
        LoopHead \<Rightarrow> 11 | CheckErr \<Rightarrow> 10 | GetURL \<Rightarrow> 9 | Acquire url off len \<Rightarrow> 8
      | WaitAll \<Rightarrow> 7 | CheckCtx \<Rightarrow> 6 | CheckUploadErr \<Rightarrow> 5 | Complete \<Rightarrow> 4
      | ComputeCRC \<Rightarrow> 3 | Deferred out \<Rightarrow> 2 | Finished out \<Rightarrow> 0)"

definition stage_rank :: "stage \<Rightarrow> nat" where
  "stage_rank st = (case st of Uploading \<Rightarrow> 3 | Recorded \<Rightarrow> 2 | Released \<Rightarrow> 1)"

definition steps_left :: "InitUploadResponse \<Rightarrow> mp_state \<Rightarrow> nat" where
  "steps_left ir s =
     15 * nat (TotalParts ir + 1 - partNum s) + pc_rank (pc s)
     + sum_list (map (\<lambda>g. stage_rank (g_stage g)) (goroutines s))"

text \<open>Example runs: a session of two parts whose URLs came with the negotiation.\<close>

definition ex_response :: InitUploadResponse where
  "ex_response =
     \<lparr>UploadID = ''up1'', PartSize = 10, TotalParts = 2,
      InitialURLs = Some [''1'' \<mapsto> ''u1'', ''2'' \<mapsto> ''u2'']\<rparr>"

definition ex_env :: mp_env where
  "ex_env =
     \<lparr>GetPartURLs_reply = (\<lambda>n. Inr [(''1'', ''u1''), (''2'', ''u2'')]),
      uploadPart_result = (\<lambda>p. Inr (''etag'' @ Itoa p)),
      CompleteMultipart_reply = (\<lambda>ps. None), crc_result = Inr 7, AbortUpload_reply = None\<rparr>"

definition start_part :: "event list" where
  "start_part = [Main, Main, Main, Main]"

definition finish_part :: "int \<Rightarrow> event list" where
  "finish_part p = [PartDone p, PartRelease p, PartExit p]"

definition sched_in_order :: "event list" where
  "sched_in_order =
     start_part @ start_part @ [Main] @ finish_part 1 @ finish_part 2
     @ [Main, Main, Main, Main, Main, Main]"

definition sched_reversed :: "event list" where
  "sched_reversed =
     start_part @ start_part @ [Main] @ finish_part 2 @ finish_part 1
     @ [Main, Main, Main, Main, Main, Main]"

definition sched_part_fails :: "event list" where
  "sched_part_fails = start_part @ finish_part 1 @ [Main, Main, Main, Main, Main, Main]"

definition sched_cancelled :: "event list" where
  "sched_cancelled = start_part @ [Cancel] @ finish_part 1 @ [Main, Main, Main, Main]"

definition ex_env_fails :: mp_env where
  "ex_env_fails = ex_env\<lparr>uploadPart_result := (\<lambda>p. Inl (Errorf ''HTTP 500''))\<rparr>"

definition ex_response_no_urls :: InitUploadResponse where
  "ex_response_no_urls = ex_response\<lparr>InitialURLs := Some Map.empty\<rparr>"

definition ex_response_nil_urls :: InitUploadResponse where
  "ex_response_nil_urls = ex_response\<lparr>InitialURLs := None\<rparr>"

section \<open>The batch orchestrator (uploadFilesBatch)\<close>

definition batchSize :: nat where
  "batchSize = 250"

definition concurrentFiles :: nat where
  "concurrentFiles = 6"

text \<open>
  \<^verbatim>\<open>filepath.Base\<close> for paths with the separator \<open>/\<close>: the last element of the path,
  after trailing separators are removed; \<open>.\<close> for the empty path and \<open>/\<close> for a path of
  separators only.
\<close>

definition Base :: "string \<Rightarrow> string" where
  "Base path =
     (if path = [] then ''.''
      else let p = rev (dropWhile (\<lambda>c. c = CHR ''/'') (rev path))
           in if p = [] then ''/'' else rev (takeWhile (\<lambda>c. c \<noteq> CHR ''/'') (rev p)))"

text \<open>
  The per-file record of the batch (\<^verbatim>\<open>fileMetadata\<close>) and the messages exchanged with
  the service: of \<^verbatim>\<open>api.InitBatchResult\<close> the fields that the orchestrator reads, of
  \<^verbatim>\<open>api.BatchConfirmFile\<close> the fields that it sets.
\<close>

record fileMetadata =
  fm_path :: string
  fm_filename :: string
  fm_contentType :: string
  fm_size :: int
  fm_index :: nat
  fm_uploadURL :: string
  fm_r2Key :: string
  fm_uploadErr :: "error option"
  fm_crc32 :: "32 word"

record BatchFileRequest =
  bfr_Filename :: string
  bfr_ContentType :: string
  bfr_Size :: int

record InitBatchResult =
  ibr_Error :: string
  ibr_UploadURL :: string
  ibr_R2Key :: string

record BatchConfirmFile =
  bcf_Filename :: string
  bcf_Size :: int
  bcf_ContentType :: string
  bcf_R2Key :: string
  bcf_CRC32 :: "64 word"

record CollectionInfo =
  coll_ID :: string
  coll_URL :: string

text \<open>
  What the orchestrator does that the outside can see, in order: its calls to the
  service and the transfers it starts (\<open>Transfer i\<close>: uploadFileToR2 for the file with
  index \<open>i\<close>).
\<close>

datatype batch_call =
    CreateCollection nat
  | InitUploadBatch "BatchFileRequest list"
  | Transfer nat
  | ConfirmUploadBatch string "BatchConfirmFile list"
  | MarkCollectionReady string

text \<open>
  The environment of one batch: what opening and inspecting a path gives (the open
  fails, the stat fails, or the content type and the size), the replies of the service
  (those to the paged calls by the number of the call), the caller's context, read at
  instant \<open>i\<close> by the iteration of the transfer loop for file \<open>i\<close>, and how the transfer
  of a file ends (an error after its retries, or the CRC-32).
\<close>

datatype file_probe = OpenFails error | StatFails error | Probed string int

record batch_world =
  probe :: "string \<Rightarrow> file_probe"
  CreateCollection_reply :: "nat \<Rightarrow> error + CollectionInfo"
  InitUploadBatch_reply :: "nat \<Rightarrow> error + (string \<rightharpoonup> InitBatchResult)"
  batch_ctx :: ctx
  uploadFileToR2_result :: "fileMetadata \<Rightarrow> error + 32 word"
  ConfirmUploadBatch_reply :: "nat \<Rightarrow> error option"
  MarkCollectionReady_reply :: "string \<Rightarrow> error + CollectionInfo"

record batch_out =
  bo_result :: "error + CollectionInfo"
  bo_calls :: "batch_call list"
  bo_errorCount :: nat
  bo_uploadedCount :: nat
  bo_warning :: "nat option"

text \<open>
  Step 1, the metadata of every path, in order; the first path that cannot be opened or
  inspected ends the batch.
\<close>

definition new_metadata :: "string \<Rightarrow> string \<Rightarrow> int \<Rightarrow> nat \<Rightarrow> fileMetadata" where
  "new_metadata path ct sz i =
     \<lparr>fm_path = path, fm_filename = Base path, fm_contentType = ct, fm_size = sz,
      fm_index = i, fm_uploadURL = [], fm_r2Key = [], fm_uploadErr = None, fm_crc32 = 0\<rparr>"

fun collect :: "batch_world \<Rightarrow> nat \<Rightarrow> string list \<Rightarrow> error + fileMetadata list" where
  "collect w i [] = Inr []"
| "collect w i (path # paths) =
     (case probe w path of
        OpenFails e \<Rightarrow> Inl (Wrapf (''cannot open '' @ path) e)
      | StatFails e \<Rightarrow> Inl (Wrapf (''cannot stat '' @ path) e)
      | Probed ct sz \<Rightarrow>
          (case collect w (Suc i) paths of
             Inl e \<Rightarrow> Inl e
           | Inr fs \<Rightarrow> Inr (new_metadata path ct sz i # fs)))"

text \<open>
  Step 3, the negotiation in pages of \<open>batchSize\<close> files:
  \<^verbatim>\<open>
      for i, f := range batch {
          idxStr := strconv.Itoa(i)
          if result, ok := initResp.Results[idxStr]; ok {
              if result.Error != "" {
                  f.uploadErr = fmt.Errorf("%s", result.Error)
              } else {
                  f.uploadURL = result.UploadURL
                  f.r2Key = result.R2Key
              }
          }
      }
  \<close>
  \<open>store_result\<close> is the body for one file, \<open>i\<close> its index within the page. The page is
  a slice of pointers into \<open>files\<close>, so storing into its files changes \<open>files\<close>.
\<close>

definition store_result :: "(string \<rightharpoonup> InitBatchResult) \<Rightarrow> nat \<Rightarrow> fileMetadata \<Rightarrow> fileMetadata" where
  "store_result results i f =
     (case results (Itoa (int i)) of
        None \<Rightarrow> f
      | Some r \<Rightarrow>
          if ibr_Error r \<noteq> [] then f\<lparr>fm_uploadErr := Some (Errorf (ibr_Error r))\<rparr>
          else f\<lparr>fm_uploadURL := ibr_UploadURL r, fm_r2Key := ibr_R2Key r\<rparr>)"

definition store_results :: "(string \<rightharpoonup> InitBatchResult) \<Rightarrow> fileMetadata list \<Rightarrow> fileMetadata list" where
  "store_results results batch = map (\<lambda>(i, f). store_result results i f) (enumerate 0 batch)"

definition init_request :: "fileMetadata \<Rightarrow> BatchFileRequest" where
  "init_request f =
     \<lparr>bfr_Filename = fm_filename f, bfr_ContentType = fm_contentType f, bfr_Size = fm_size f\<rparr>"

function init_loop ::
  "batch_world \<Rightarrow> nat \<Rightarrow> fileMetadata list \<Rightarrow> batch_call list
    \<Rightarrow> (error + fileMetadata list) \<times> batch_call list" where
  "init_loop w batchStart files log =
     (if batchStart < length files then
        let batchEnd = (if batchStart + batchSize > length files then length files
                        else batchStart + batchSize);
            batch = take (batchEnd - batchStart) (drop batchStart files);
            log1 = log @ [InitUploadBatch (map init_request batch)]
        in case InitUploadBatch_reply w (batchStart div batchSize) of
             Inl e \<Rightarrow> (Inl (Wrapf ''failed to init batch'' e), log1)
           | Inr results \<Rightarrow>
               init_loop w (batchStart + batchSize)
                 (take batchStart files @ store_results results batch @ drop batchEnd files) log1
      else (Inr files, log))"
  by pat_completeness auto
termination
  by (relation "measure (\<lambda>(w, batchStart, files, log). length files - batchStart)")
    (auto simp: batchSize_def store_results_def)

text \<open>
  Step 4, the transfers. Each started transfer runs in a goroutine of its own, at most
  \<open>concurrentFiles\<close> at a time; a goroutine writes only to its own file record and adds
  to the two atomic counters, and the main goroutine reads a file record only before it
  starts that file's goroutine and after \<^verbatim>\<open>wg.Wait()\<close>. The state after the wait
  therefore does not depend on the interleaving, and the loop is modelled file by file:
  \<^verbatim>\<open>
      for _, f := range files {
          if ctx.Err() != nil { break }
          if f.uploadErr != nil || f.uploadURL == "" {
              atomic.AddInt64(&errorCount, 1)
              continue
          }
          ... go func(fm) { err := u.uploadFileToR2(ctx, fm)
                            if err != nil { fm.uploadErr = err; errorCount++ }
                            else { uploadedCount++ } }(f)
      }
      wg.Wait()
  \<close>
  The result is the file records after the wait, \<^verbatim>\<open>errorCount\<close>, \<^verbatim>\<open>uploadedCount\<close>
  and the indices of the files whose transfer was started, in order.
\<close>

fun upload_loop ::
  "batch_world \<Rightarrow> nat \<Rightarrow> fileMetadata list \<Rightarrow> fileMetadata list \<times> nat \<times> nat \<times> nat list" where
  "upload_loop w i [] = ([], 0, 0, [])"
| "upload_loop w i (f # fs) =
     (if ctx_Err (batch_ctx w) i then (f # fs, 0, 0, [])
      else (case upload_loop w (Suc i) fs of
        (fs', ec, uc, started) \<Rightarrow>
          if fm_uploadErr f \<noteq> None \<or> fm_uploadURL f = [] then (f # fs', Suc ec, uc, started)
          else (case uploadFileToR2_result w f of
                  Inl e \<Rightarrow> (f\<lparr>fm_uploadErr := Some e\<rparr> # fs', Suc ec, uc, fm_index f # started)
                | Inr c \<Rightarrow> (f\<lparr>fm_crc32 := c\<rparr> # fs', ec, Suc uc, fm_index f # started))))"

text \<open>Step 5, the confirmation in pages of the files that negotiated and transferred.\<close>

definition confirm_file :: "fileMetadata \<Rightarrow> BatchConfirmFile" where
  "confirm_file f =
     \<lparr>bcf_Filename = fm_filename f, bcf_Size = fm_size f, bcf_ContentType = fm_contentType f,
      bcf_R2Key = fm_r2Key f, bcf_CRC32 = ucast (fm_crc32 f)\<rparr>"

function confirm_loop ::
  "batch_world \<Rightarrow> string \<Rightarrow> nat \<Rightarrow> fileMetadata list \<Rightarrow> batch_call list
    \<Rightarrow> error option \<times> batch_call list" where
  "confirm_loop w collectionID batchStart toConfirm log =
     (if batchStart < length toConfirm then
        let batchEnd = (if batchStart + batchSize > length toConfirm then length toConfirm
                        else batchStart + batchSize);
            batch = take (batchEnd - batchStart) (drop batchStart toConfirm);
            log1 = log @ [ConfirmUploadBatch collectionID (map confirm_file batch)]
        in case ConfirmUploadBatch_reply w (batchStart div batchSize) of
             Some e \<Rightarrow> (Some (Wrapf ''failed to confirm batch'' e), log1)
           | None \<Rightarrow> confirm_loop w collectionID (batchStart + batchSize) toConfirm log1
      else (None, log))"
  by pat_completeness auto
termination
  by (relation "measure (\<lambda>(w, c, batchStart, toConfirm, log). length toConfirm - batchStart)")
    (auto simp: batchSize_def)

definition failed_out :: "error \<Rightarrow> batch_call list \<Rightarrow> batch_out" where
  "failed_out e log =
     \<lparr>bo_result = Inl e, bo_calls = log, bo_errorCount = 0, bo_uploadedCount = 0, bo_warning = None\<rparr>"

definition uploadFilesBatch :: "batch_world \<Rightarrow> string list \<Rightarrow> batch_out" where
  "uploadFilesBatch w paths =
     (case collect w 0 paths of
        Inl e \<Rightarrow> failed_out e []
      | Inr files \<Rightarrow>
         (let log0 = [CreateCollection (length files)]
          in case CreateCollection_reply w (length files) of
               Inl e \<Rightarrow> failed_out (Wrapf ''failed to create collection'' e) log0
             | Inr coll \<Rightarrow>
                (case init_loop w 0 files log0 of
                   (Inl e, log1) \<Rightarrow> failed_out e log1
                 | (Inr files1, log1) \<Rightarrow>
                    (case upload_loop w 0 files1 of
                       (files2, errorCount, uploadedCount, started) \<Rightarrow>
                        (let log2 = log1 @ map Transfer started;
                             toConfirm = filter (\<lambda>f. fm_uploadErr f = None \<and> fm_r2Key f \<noteq> []) files2
                         in case confirm_loop w (coll_ID coll) 0 toConfirm log2 of
                              (Some e, log3) \<Rightarrow>
                                (failed_out e log3)\<lparr>bo_errorCount := errorCount,
                                                    bo_uploadedCount := uploadedCount\<rparr>
                            | (None, log3) \<Rightarrow>
                               (let log4 = log3 @ [MarkCollectionReady (coll_ID coll)]
                                in case MarkCollectionReady_reply w (coll_ID coll) of
                                     Inl e \<Rightarrow>
                                       (failed_out (Wrapf ''failed to finalize collection'' e) log4)
                                         \<lparr>bo_errorCount := errorCount,
                                          bo_uploadedCount := uploadedCount\<rparr>
                                   | Inr ready \<Rightarrow>
                                       \<lparr>bo_result = Inr ready, bo_calls = log4,
                                        bo_errorCount = errorCount,
                                        bo_uploadedCount = uploadedCount,
                                        bo_warning = (if errorCount > 0 then Some errorCount
                                                      else None)\<rparr>))))))"

text \<open>What a batch shows: the transfers started and the files confirmed, in order.\<close>

definition transfers :: "batch_out \<Rightarrow> nat list" where
  "transfers out = concat (map (\<lambda>c. case c of Transfer i \<Rightarrow> [i] | _ \<Rightarrow> []) (bo_calls out))"







text \<open>An example: ten files, of which the third fails its negotiation.\<close>

definition ex_paths :: "string list" where
  "ex_paths = map (\<lambda>i. ''dir/file'' @ Itoa (int i) @ ''.txt'') [1 ..< 11]"

definition ex_world :: batch_world where
  "ex_world =
     \<lparr>probe = (\<lambda>p. Probed ''text/plain'' 100),
      CreateCollection_reply = (\<lambda>n. Inr \<lparr>coll_ID = ''c1'', coll_URL = ''https://storage.to/c/c1''\<rparr>),
      InitUploadBatch_reply =
        (\<lambda>k. Inr (\<lambda>key. if key = ''2''
                         then Some \<lparr>ibr_Error = ''quota exceeded'', ibr_UploadURL = [], ibr_R2Key = []\<rparr>
                         else Some \<lparr>ibr_Error = [], ibr_UploadURL = ''https://r2/'' @ key,
                                    ibr_R2Key = ''key'' @ key\<rparr>)),
      batch_ctx = None,
      uploadFileToR2_result = (\<lambda>f. Inr 7),
      ConfirmUploadBatch_reply = (\<lambda>k. None),
      MarkCollectionReady_reply =
        (\<lambda>cid. Inr \<lparr>coll_ID = cid, coll_URL = ''https://storage.to/c/'' @ cid\<rparr>)\<rparr>"

section \<open>Properties\<close>

subsection \<open>Properties of the retry driver\<close>

declare retry_loop.simps [simp del]

lemma retry_loop_2:
  "retry_loop c w fn 2 err tr =
     (if ctx_Err c 4 then (Some ContextCanceled, tr)
      else (case fn 2 of None \<Rightarrow> (None, tr @ [Invoke 2]) | Some e \<Rightarrow> (Some e, tr @ [Invoke 2])))"
  by (subst retry_loop.simps, subst retry_loop.simps)
    (simp add: maxRetries_def del: One_nat_def split: option.splits)

lemma retry_loop_1:
  "retry_loop c w fn 1 err tr =
     (if ctx_Err c 2 then (Some ContextCanceled, tr)
      else (case fn 1 of None \<Rightarrow> (None, tr @ [Invoke 1])
        | Some e \<Rightarrow>
            if ctx_Err c 3 \<and> \<not> w 1 then (Some ContextCanceled, tr @ [Invoke 1])
            else retry_loop c w fn 2 (Some e) (tr @ [Invoke 1, Delay])))"
  by (subst retry_loop.simps) (auto simp add: maxRetries_def simp del: One_nat_def split: option.splits)

lemma retry_loop_0:
  "retry_loop c w fn 0 err tr =
     (if ctx_Err c 0 then (Some ContextCanceled, tr)
      else (case fn 0 of None \<Rightarrow> (None, tr @ [Invoke 0])
        | Some e \<Rightarrow>
            if ctx_Err c 1 \<and> \<not> w 0 then (Some ContextCanceled, tr @ [Invoke 0])
            else retry_loop c w fn 1 (Some e) (tr @ [Invoke 0, Delay])))"
  by (subst retry_loop.simps) (auto simp add: maxRetries_def simp del: One_nat_def split: option.splits)

lemma retry_never_cancelled:
  "uploadWithRetry None w fn =
     (case fn 0 of None \<Rightarrow> (None, [Invoke 0])
      | Some e0 \<Rightarrow> (case fn 1 of None \<Rightarrow> (None, [Invoke 0, Delay, Invoke 1])
      | Some e1 \<Rightarrow> (case fn 2 of None \<Rightarrow> (None, [Invoke 0, Delay, Invoke 1, Delay, Invoke 2])
      | Some e2 \<Rightarrow> (Some e2, [Invoke 0, Delay, Invoke 1, Delay, Invoke 2]))))"
  by (simp add: uploadWithRetry_def retry_loop_0 retry_loop_1 retry_loop_2 ctx_Err_def
      del: One_nat_def split: option.splits)

text \<open>
  C4. With \<open>maxRetries = 3\<close> and a context that is never cancelled: an operation that
  fails twice and then succeeds is invoked exactly three times, with exactly two delays
  in between, and the driver returns nil; an operation that fails every time is invoked
  exactly \<open>maxRetries\<close> times and the driver returns the error of the last attempt as it
  is, with nothing wrapped around it.
\<close>

theorem C4_retry_counts:
  "(fn 0 = Some e0 \<and> fn 1 = Some e1 \<and> fn 2 = None \<longrightarrow>
      uploadWithRetry None w fn = (None, [Invoke 0, Delay, Invoke 1, Delay, Invoke 2]) \<and>
      invocations (snd (uploadWithRetry None w fn)) = 3 \<and>
      delays (snd (uploadWithRetry None w fn)) = 2)
   \<and> ((\<forall>i < maxRetries. gn i \<noteq> None) \<longrightarrow>
      fst (uploadWithRetry None w gn) = gn (maxRetries - 1) \<and>
      snd (uploadWithRetry None w gn) = [Invoke 0, Delay, Invoke 1, Delay, Invoke 2] \<and>
      invocations (snd (uploadWithRetry None w gn)) = maxRetries)"
proof (intro conjI impI)
  assume h: "fn 0 = Some e0 \<and> fn 1 = Some e1 \<and> fn 2 = None"
  then show r: "uploadWithRetry None w fn = (None, [Invoke 0, Delay, Invoke 1, Delay, Invoke 2])"
    by (simp add: retry_never_cancelled del: One_nat_def)
  show "invocations (snd (uploadWithRetry None w fn)) = 3"
    by (simp add: r invocations_def)
  show "delays (snd (uploadWithRetry None w fn)) = 2"
    by (simp add: r delays_def)
next
  assume h: "\<forall>i < maxRetries. gn i \<noteq> None"
  then have "gn 0 \<noteq> None" "gn 1 \<noteq> None" "gn 2 \<noteq> None"
    by (simp_all add: maxRetries_def del: One_nat_def)
  then obtain a b d where g: "gn 0 = Some a" "gn 1 = Some b" "gn 2 = Some d"
    by auto
  have r: "uploadWithRetry None w gn = (Some d, [Invoke 0, Delay, Invoke 1, Delay, Invoke 2])"
    by (simp add: retry_never_cancelled g del: One_nat_def)
  show "fst (uploadWithRetry None w gn) = gn (maxRetries - 1)"
    by (simp add: r g maxRetries_def)
  show "snd (uploadWithRetry None w gn) = [Invoke 0, Delay, Invoke 1, Delay, Invoke 2]"
    by (simp add: r)
  show "invocations (snd (uploadWithRetry None w gn)) = maxRetries"
    by (simp add: r invocations_def maxRetries_def)
qed

theorem C4_retry_counts_witness:
  "uploadWithRetry None (\<lambda>i. False) (\<lambda>i. if i < 2 then Some (Errorf ''reset'') else None)
     = (None, [Invoke 0, Delay, Invoke 1, Delay, Invoke 2])
   \<and> invocations (snd (uploadWithRetry None (\<lambda>i. False)
        (\<lambda>i. if i < 2 then Some (Errorf ''reset'') else None))) = 3
   \<and> delays (snd (uploadWithRetry None (\<lambda>i. False)
        (\<lambda>i. if i < 2 then Some (Errorf ''reset'') else None))) = 2
   \<and> fst (uploadWithRetry None (\<lambda>i. False)
        (\<lambda>i. Some (if i = 2 then Errorf ''third'' else Errorf ''early''))) = Some (Errorf ''third'')
   \<and> invocations (snd (uploadWithRetry None (\<lambda>i. False)
        (\<lambda>i. Some (if i = 2 then Errorf ''third'' else Errorf ''early'')))) = 3"
  using C4_retry_counts [where fn = "\<lambda>i. if i < 2 then Some (Errorf ''reset'') else None"
      and ?e0.0 = "Errorf ''reset''" and ?e1.0 = "Errorf ''reset''" and w = "\<lambda>i. False"
      and gn = "\<lambda>i. Some (if i = 2 then Errorf ''third'' else Errorf ''early'')"]
  by (simp add: maxRetries_def invocations_def delays_def)



subsection \<open>Properties of the part boundaries\<close>

lemma int64_id: "- (2 ^ 63) \<le> x \<Longrightarrow> x < 2 ^ 63 \<Longrightarrow> int64 x = x"
  unfolding int64_def by (rule signed_take_bit_int_eq_self) simp_all

lemma int64_range: "- (2 ^ 63) \<le> int64 x \<and> int64 x < 2 ^ 63"
  using signed_take_bit_int_greater_eq_minus_exp [of 63 x]
    signed_take_bit_int_less_exp [of 63 x]
  by (simp add: int64_def)

lemma gpn_loop_upto:
  assumes "- (2 ^ 63) \<le> i" and "e < 2 ^ 63 - 1"
  shows "gpn_loop i e nums = Some (nums @ [i..e])"
  using assms
proof (induction "nat (e + 1 - i)" arbitrary: i nums)
  case 0
  then have "\<not> i \<le> e" by simp
  then show ?case by (subst gpn_loop.simps) simp
next
  case (Suc k)
  then have le: "i \<le> e" by simp
  have w: "int64 (i + 1) = i + 1" using le Suc.prems by (intro int64_id) simp_all
  have k: "k = nat (e + 1 - (i + 1))" using Suc.hyps(2) by simp
  have "gpn_loop (i + 1) e (nums @ [i]) = Some ((nums @ [i]) @ [i + 1..e])"
    using Suc.hyps(1) [OF k] Suc.prems by simp
  then show ?case using le w by (subst gpn_loop.simps) (simp add: upto_rec1 [of i e])
qed

lemma generatePartNumbers_range:
  assumes "start \<le> endN" and "- (2 ^ 63) \<le> start" and "endN < 2 ^ 63 - 1"
    and "8 * (endN - start + 1) \<le> maxAlloc"
  shows "generatePartNumbers start endN = Some (Inr [start..endN])"
proof -
  have d: "endN - start < 2 ^ 45" using assms(4) by (simp add: maxAlloc_def)
  then have "int64 (endN - start) = endN - start" using assms(1) by (intro int64_id) simp_all
  moreover have "int64 (endN - start + 1) = endN - start + 1"
    using assms(1) d by (intro int64_id) simp_all
  ultimately show ?thesis
    using assms by (simp add: generatePartNumbers_def gpn_loop_upto)
qed

lemma generatePartNumbers_empty:
  assumes "start = endN + 1" and "start < 2 ^ 63" and "- (2 ^ 63) \<le> endN"
  shows "generatePartNumbers start endN = Some (Inr [])"
proof -
  have "int64 (endN - start) = - 1" using assms(1) by (simp add: int64_def)
  then show ?thesis
    using assms by (simp add: generatePartNumbers_def gpn_loop_upto int64_def maxAlloc_def)
qed

lemma generatePartNumbers_negative:
  assumes "endN + 1 < start" and "- (2 ^ 63) \<le> endN - start"
  shows "generatePartNumbers start endN
    = Some (Inl ''runtime error: makeslice: cap out of range'')"
proof -
  have "int64 (endN - start) = endN - start" using assms by (intro int64_id) simp_all
  moreover have "int64 (endN - start + 1) = endN - start + 1"
    using assms by (intro int64_id) simp_all
  ultimately show ?thesis using assms by (simp add: generatePartNumbers_def)
qed

lemma generatePartNumbers_too_large:
  assumes "maxAlloc < 8 * (endN - start + 1)" and "endN - start + 1 < 2 ^ 63"
  shows "generatePartNumbers start endN
    = Some (Inl ''runtime error: makeslice: cap out of range'')"
proof -
  have p: "0 < endN - start" using assms(1) by (simp add: maxAlloc_def)
  have "int64 (endN - start) = endN - start" using assms p by (intro int64_id) simp_all
  moreover have "int64 (endN - start + 1) = endN - start + 1"
    using assms p by (intro int64_id) simp_all
  ultimately show ?thesis using assms by (simp add: generatePartNumbers_def)
qed

text \<open>
  C6 (as amended). For a file size \<open>F\<close> and a part size \<open>P\<close>, both positive
  \<^verbatim>\<open>int64\<close> values, and a negotiated part count \<open>T \<ge> 1\<close> whose offsets fit an
  \<^verbatim>\<open>int64\<close>: part \<open>N\<close> starts at \<open>(N - 1) * P\<close>, every part but the last has length
  \<open>P\<close>, the last part has length \<open>F\<close> minus its offset, and the lengths add up to
  \<open>F\<close>. The last part is no longer than \<open>P\<close> when \<open>F \<le> T * P\<close>, which is the case
  when the service negotiates \<open>T\<close> as \<open>F / P\<close> rounded up; the code takes \<open>T\<close> from
  the service and does not check it.
\<close>

theorem C6_part_boundaries:
  assumes F: "0 < F" "F < 2 ^ 63" and P: "0 < P" "P < 2 ^ 63" and T: "1 \<le> T"
    and fit: "(T - 1) * P < 2 ^ 63"
  shows "(\<forall>N \<in> {1..T}. part_offset P N = (N - 1) * P)
       \<and> (\<forall>N \<in> {1..<T}. part_length F P T N = P)
       \<and> part_length F P T T = F - part_offset P T
       \<and> (\<Sum>N = 1..T. part_length F P T N) = F
       \<and> (F \<le> T * P \<longrightarrow> part_length F P T T \<le> P)"
proof -
  have off: "part_offset P N = (N - 1) * P" if N: "1 \<le> N" "N \<le> T" for N
  proof -
    have le: "(N - 1) * P \<le> (T - 1) * P" using N P by (intro mult_right_mono) simp_all
    have ge: "0 \<le> (N - 1) * P" using N P by simp
    have "N - 1 \<le> (N - 1) * P" using N P mult_left_mono [of 1 P "N - 1"] by simp
    then have "N - 1 < 2 ^ 63" using le fit by linarith
    then have "int64 (N - 1) = N - 1" using N by (intro int64_id) simp_all
    moreover have "int64 ((N - 1) * P) = (N - 1) * P" using le ge fit by (intro int64_id) simp_all
    ultimately show ?thesis by (simp add: part_offset_def)
  qed
  have offT: "part_offset P T = (T - 1) * P" using off [of T] T by simp
  have "0 \<le> (T - 1) * P" using T P by simp
  then have lastv: "int64 (F - (T - 1) * P) = F - (T - 1) * P"
    using F fit by (intro int64_id) simp_all
  have last: "part_length F P T T = F - (T - 1) * P"
    by (simp add: part_length_def offT lastv)
  have "{1..T} = insert T {1..<T}" using T by auto
  then have "(\<Sum>N = 1..T. part_length F P T N) = part_length F P T T + (\<Sum>N = 1..<T. part_length F P T N)"
    by simp
  also have "(\<Sum>N = 1..<T. part_length F P T N) = (\<Sum>N = 1..<T. P)"
    by (intro sum.cong) (simp_all add: part_length_def)
  also have "\<dots> = (T - 1) * P" using T by simp
  finally have sum: "(\<Sum>N = 1..T. part_length F P T N) = F" using last by simp
  have c1: "\<forall>N \<in> {1..T}. part_offset P N = (N - 1) * P" using off by simp
  have c2: "\<forall>N \<in> {1..<T}. part_length F P T N = P" by (simp add: part_length_def)
  have c3: "part_length F P T T = F - part_offset P T" using last offT by simp
  have c5: "F \<le> T * P \<longrightarrow> part_length F P T T \<le> P" using last by (simp add: algebra_simps)
  show ?thesis using c1 c2 c3 sum c5 by blast
qed


theorem C6_part_boundaries_witness:
  "(0::int) < 25 \<and> (25::int) < 2 ^ 63 \<and> (0::int) < 10 \<and> (10::int) < 2 ^ 63 \<and> (1::int) \<le> 3
   \<and> part_offset 10 1 = 0 \<and> part_offset 10 2 = 10 \<and> part_offset 10 3 = 20
   \<and> part_length 25 10 3 1 = 10 \<and> part_length 25 10 3 2 = 10 \<and> part_length 25 10 3 3 = 5
   \<and> (\<Sum>N = 1..3. part_length 25 10 3 N) = 25"
  using C6_part_boundaries [of 25 10 3]
  by (simp add: part_length_def part_offset_def int64_id)

text \<open>
  The claim as it was stated fails where the negotiated part count is too small for the
  file: with \<open>F = 100\<close>, \<open>P = 10\<close> and \<open>T = 1\<close> the only part is the last one, and its
  length is \<open>100\<close>.
\<close>

theorem C6_last_part_counterexample:
  "part_length 100 10 1 1 = 100 \<and> \<not> part_length 100 10 1 1 \<le> 10"
  by (simp add: part_length_def part_offset_def int64_def)

subsection \<open>Properties of the progress and checksum stream\<close>

lemma crc32_Update_append:
  "crc32_Update (crc32_Update c tab xs) tab ys = crc32_Update c tab (xs @ ys)"
  by (simp add: crc32_Update_def)

lemma crc32_Update_Nil: "crc32_Update c tab [] = c"
  by (simp add: crc32_Update_def)

lemma int64_add_int64: "int64 (a + int64 b) = int64 (a + b)"
proof -
  have "int64 (a + int64 b) = int64 (int64 a + int64 (int64 b))"
    unfolding int64_def by (simp only: signed_take_bit_add)
  also have "\<dots> = int64 (int64 a + int64 b)" by (simp add: int64_def)
  also have "\<dots> = int64 (a + b)" unfolding int64_def by (simp only: signed_take_bit_add)
  finally show ?thesis .
qed

lemma Read_fields:
  "snd (snd (Read pr (data, err))) =
     (if data = [] then pr else
      pr\<lparr>pr_uploaded := int64 (pr_uploaded pr + int (length data)),
         pr_crc := (case pr_hasher pr of Some tab \<Rightarrow> crc32_Update (pr_crc pr) tab data
                    | None \<Rightarrow> pr_crc pr)\<rparr>)"
  by (cases data) (simp_all add: Read_def Let_def int64_add_int64 split: option.splits)

lemma Read_hasher: "pr_hasher (snd (snd (Read pr rd))) = pr_hasher pr"
  by (cases rd) (simp add: Read_def Let_def split: option.splits)

lemma Read_crc:
  "pr_crc (snd (snd (Read pr rd))) =
     (case pr_hasher pr of Some tab \<Rightarrow> crc32_Update (pr_crc pr) tab (fst rd) | None \<Rightarrow> pr_crc pr)"
  by (cases rd) (simp add: Read_def Let_def crc32_Update_Nil split: option.splits)

lemma Reads_crc:
  "pr_crc (snd (Reads pr rds)) =
     (case pr_hasher pr of Some tab \<Rightarrow> crc32_Update (pr_crc pr) tab (concat (map fst rds))
      | None \<Rightarrow> pr_crc pr)"
proof (induction rds arbitrary: pr)
  case Nil
  then show ?case by (simp add: crc32_Update_Nil split: option.splits)
next
  case (Cons rd rds)
  obtain ret cbs pr' where r: "Read pr rd = (ret, cbs, pr')" by (cases "Read pr rd")
  have h: "pr_hasher pr' = pr_hasher pr" using Read_hasher [of pr rd] r by simp
  have c: "pr_crc pr' = (case pr_hasher pr of Some tab \<Rightarrow> crc32_Update (pr_crc pr) tab (fst rd)
      | None \<Rightarrow> pr_crc pr)"
    using Read_crc [of pr rd] r by simp
  obtain cbs' pr'' where rs: "Reads pr' rds = (cbs', pr'')" by (cases "Reads pr' rds")
  have "pr_crc (snd (Reads pr (rd # rds))) = pr_crc (snd (Reads pr' rds))" using r rs by simp
  also have "\<dots> = (case pr_hasher pr' of
       Some tab \<Rightarrow> crc32_Update (pr_crc pr') tab (concat (map fst rds)) | None \<Rightarrow> pr_crc pr')"
    by (rule Cons.IH)
  also have "\<dots> = (case pr_hasher pr of
       Some tab \<Rightarrow> crc32_Update (pr_crc pr) tab (concat (map fst (rd # rds)))
     | None \<Rightarrow> pr_crc pr)"
    by (simp add: h c crc32_Update_append split: option.splits)
  finally show ?case .
qed

lemma Read_uploaded:
  assumes "- (2 ^ 63) \<le> pr_uploaded pr" "pr_uploaded pr + int (length (fst rd)) < 2 ^ 63"
  shows "pr_uploaded (snd (snd (Read pr rd))) = pr_uploaded pr + int (length (fst rd))"
proof -
  obtain data err where rd: "rd = (data, err)" by (cases rd)
  have "int64 (pr_uploaded pr + int (length data)) = pr_uploaded pr + int (length data)"
    using assms rd by (intro int64_id) simp_all
  then show ?thesis using Read_fields [of pr data err] rd by simp
qed

lemma Reads_uploaded:
  assumes "- (2 ^ 63) \<le> pr_uploaded pr"
    "pr_uploaded pr + int (length (concat (map fst rds))) < 2 ^ 63"
  shows "pr_uploaded (snd (Reads pr rds)) = pr_uploaded pr + int (length (concat (map fst rds)))"
  using assms
proof (induction rds arbitrary: pr)
  case Nil
  then show ?case by simp
next
  case (Cons rd rds)
  obtain ret cbs pr' where r: "Read pr rd = (ret, cbs, pr')" by (cases "Read pr rd")
  have u: "pr_uploaded pr' = pr_uploaded pr + int (length (fst rd))"
    using Read_uploaded [of pr rd] r Cons.prems by simp
  obtain cbs' pr'' where rs: "Reads pr' rds = (cbs', pr'')" by (cases "Reads pr' rds")
  have "pr_uploaded (snd (Reads pr' rds)) = pr_uploaded pr' + int (length (concat (map fst rds)))"
    using Cons.prems u by (intro Cons.IH) simp_all
  then show ?case using r rs u by simp
qed

lemma Read_onProgress: "pr_onProgress (snd (snd (Read pr rd))) = pr_onProgress pr"
  by (cases rd) (simp add: Read_def Let_def split: option.splits)

lemma Read_callbacks:
  "pr_onProgress pr \<Longrightarrow> length (fst (snd (Read pr rd))) = (if fst rd \<noteq> [] then 1 else 0)"
  by (cases rd) (simp add: Read_def Let_def split: option.splits)

lemma Reads_callbacks:
  "pr_onProgress pr \<Longrightarrow> length (fst (Reads pr rds)) = length (filter (\<lambda>rd. fst rd \<noteq> []) rds)"
proof (induction rds arbitrary: pr)
  case Nil
  then show ?case by simp
next
  case (Cons rd rds)
  obtain ret cbs pr' where r: "Read pr rd = (ret, cbs, pr')" by (cases "Read pr rd")
  have on: "pr_onProgress pr'" using Read_onProgress [of pr rd] r Cons.prems by simp
  have n: "length cbs = (if fst rd \<noteq> [] then 1 else 0)"
    using Read_callbacks [OF Cons.prems, of rd] r by simp
  obtain cbs' pr'' where rs: "Reads pr' rds = (cbs', pr'')" by (cases "Reads pr' rds")
  have "length cbs' = length (filter (\<lambda>rd. fst rd \<noteq> []) rds)"
    using Cons.IH [OF on] rs by simp
  then show ?case using r rs n by simp
qed

text \<open>
  The check value of CRC-32 (IEEE), which is the checksum of the nine characters
  \<^verbatim>\<open>123456789\<close>, computed byte by byte: the register starts as the complement of
  zero, each step is one table lookup, and the result is the complement of the register.
\<close>

lemma crc_step_1: "simpleUpdate_byte IEEETable (- 1) 0x31 = 0x7C231048"
  by code_simp

lemma crc_step_2: "simpleUpdate_byte IEEETable 0x7C231048 0x32 = 0xB0ACBB32"
  by code_simp

lemma crc_step_3: "simpleUpdate_byte IEEETable 0xB0ACBB32 0x33 = 0x77B79C2D"
  by code_simp

lemma crc_step_4: "simpleUpdate_byte IEEETable 0x77B79C2D 0x34 = 0x641C1F5C"
  by code_simp

lemma crc_step_5: "simpleUpdate_byte IEEETable 0x641C1F5C 0x35 = 0x340AC5E3"
  by code_simp

lemma crc_step_6: "simpleUpdate_byte IEEETable 0x340AC5E3 0x36 = 0xF68D2C9E"
  by code_simp

lemma crc_step_7: "simpleUpdate_byte IEEETable 0xF68D2C9E 0x37 = 0xAFFC9660"
  by code_simp

lemma crc_step_8: "simpleUpdate_byte IEEETable 0xAFFC9660 0x38 = 0x651F2550"
  by code_simp

lemma crc_step_9: "simpleUpdate_byte IEEETable 0x651F2550 0x39 = 0x340BC6D9"
  by code_simp

lemma crc_final_3: "NOT (0x77B79C2D :: uint32) = 0x884863D2"
  by code_simp

lemma crc_final_9: "NOT (0x340BC6D9 :: uint32) = 0xCBF43926"
  by code_simp

lemma ChecksumIEEE_123: "ChecksumIEEE [0x31, 0x32, 0x33] = 0x884863D2"
  by (simp add: ChecksumIEEE_def crc32_Update_def crc_step_1 crc_step_2 crc_step_3 crc_final_3)

lemma ChecksumIEEE_check:
  "ChecksumIEEE [0x31, 0x32, 0x33, 0x34, 0x35, 0x36, 0x37, 0x38, 0x39] = 0xCBF43926"
  by (simp add: ChecksumIEEE_def crc32_Update_def crc_step_1 crc_step_2 crc_step_3 crc_step_4
      crc_step_5 crc_step_6 crc_step_7 crc_step_8 crc_step_9 crc_final_9)

lemma ChecksumIEEE_empty: "ChecksumIEEE [] = 0"
  by (simp add: ChecksumIEEE_def crc32_Update_def)

text \<open>
  C8 (as amended). A read that delivers \<open>n > 0\<close> bytes, with a counter that is an
  \<^verbatim>\<open>int64\<close> value and does not overflow when \<open>n\<close> is added, adds \<open>n\<close> to the
  counter, folds the bytes into the running CRC-32 when a table is set, and calls the
  callback once, with the new counter and the total; this is so whether or not the read
  also reports an error. Where the counter overflows it wraps around, and the rest is
  the same. A read that delivers nothing (the usual end of stream or error)
  calls nothing and leaves the reader as it was, so a read never causes a callback beyond
  the one for its bytes. Over any sequence of reads of a reader that starts at zero, the
  counter is the number of bytes delivered so far as long as that number is below
  \<open>2 ^ 63\<close>, the checksum is the CRC-32 (IEEE) of exactly those bytes, and there is
  one callback per read that delivered bytes. The checksum is the one of the standard:
  its value on the characters \<^verbatim>\<open>123456789\<close> is \<^verbatim>\<open>0xCBF43926\<close>, and it is zero
  on no bytes.
\<close>

theorem C8_progress_reader:
  "(data \<noteq> [] \<and> - (2 ^ 63) \<le> pr_uploaded pr \<and> pr_uploaded pr + int (length data) < 2 ^ 63 \<longrightarrow>
      Read pr (data, err) =
        ((length data, err),
         (if pr_onProgress pr then [(pr_uploaded pr + int (length data), pr_total pr)] else []),
         pr\<lparr>pr_uploaded := pr_uploaded pr + int (length data),
            pr_crc := (case pr_hasher pr of Some tab \<Rightarrow> crc32_Update (pr_crc pr) tab data
                       | None \<Rightarrow> pr_crc pr)\<rparr>))
   \<and> (data \<noteq> [] \<longrightarrow>
      Read pr (data, err) =
        ((length data, err),
         (if pr_onProgress pr
          then [(int64 (pr_uploaded pr + int (length data)), pr_total pr)] else []),
         pr\<lparr>pr_uploaded := int64 (pr_uploaded pr + int (length data)),
            pr_crc := (case pr_hasher pr of Some tab \<Rightarrow> crc32_Update (pr_crc pr) tab data
                       | None \<Rightarrow> pr_crc pr)\<rparr>))
   \<and> Read pr ([], err) = ((0, err), [], pr)
   \<and> (pr_uploaded pr = 0 \<and> int (length (concat (map fst rds))) < 2 ^ 63 \<longrightarrow>
        pr_uploaded (snd (Reads pr rds)) = int (length (concat (map fst rds))))
   \<and> (pr_crc pr = 0 \<and> pr_hasher pr = Some IEEETable \<longrightarrow>
        pr_crc (snd (Reads pr rds)) = ChecksumIEEE (concat (map fst rds)))
   \<and> (pr_hasher pr = None \<longrightarrow> pr_crc (snd (Reads pr rds)) = pr_crc pr)
   \<and> (pr_onProgress pr \<longrightarrow>
        length (fst (Reads pr rds)) = length (filter (\<lambda>rd. fst rd \<noteq> []) rds))
   \<and> ChecksumIEEE [0x31, 0x32, 0x33, 0x34, 0x35, 0x36, 0x37, 0x38, 0x39] = 0xCBF43926
   \<and> ChecksumIEEE [] = 0"
proof -
  have a: "Read pr (data, err) =
        ((length data, err),
         (if pr_onProgress pr then [(pr_uploaded pr + int (length data), pr_total pr)] else []),
         pr\<lparr>pr_uploaded := pr_uploaded pr + int (length data),
            pr_crc := (case pr_hasher pr of Some tab \<Rightarrow> crc32_Update (pr_crc pr) tab data
                       | None \<Rightarrow> pr_crc pr)\<rparr>)"
    if "data \<noteq> []" "- (2 ^ 63) \<le> pr_uploaded pr" "pr_uploaded pr + int (length data) < 2 ^ 63"
  proof -
    have "int64 (pr_uploaded pr + int (length data)) = pr_uploaded pr + int (length data)"
      using that by (intro int64_id) simp_all
    then show ?thesis using that(1)
      by (simp add: Read_def Let_def int64_add_int64 split: option.splits)
  qed
  have a': "Read pr (data, err) =
        ((length data, err),
         (if pr_onProgress pr
          then [(int64 (pr_uploaded pr + int (length data)), pr_total pr)] else []),
         pr\<lparr>pr_uploaded := int64 (pr_uploaded pr + int (length data)),
            pr_crc := (case pr_hasher pr of Some tab \<Rightarrow> crc32_Update (pr_crc pr) tab data
                       | None \<Rightarrow> pr_crc pr)\<rparr>)"
    if "data \<noteq> []"
    using that by (simp add: Read_def Let_def int64_add_int64 split: option.splits)
  have b: "Read pr ([], err) = ((0, err), [], pr)"
    by (simp add: Read_def)
  have c: "pr_uploaded (snd (Reads pr rds)) = int (length (concat (map fst rds)))"
    if "pr_uploaded pr = 0" "int (length (concat (map fst rds))) < 2 ^ 63"
    using Reads_uploaded [of pr rds] that by simp
  have d: "pr_crc (snd (Reads pr rds)) = ChecksumIEEE (concat (map fst rds))"
    if "pr_crc pr = 0 \<and> pr_hasher pr = Some IEEETable"
    using that by (simp add: Reads_crc ChecksumIEEE_def)
  have e: "pr_crc (snd (Reads pr rds)) = pr_crc pr" if "pr_hasher pr = None"
    using that by (simp add: Reads_crc)
  have g: "length (fst (Reads pr rds)) = length (filter (\<lambda>rd. fst rd \<noteq> []) rds)"
    if "pr_onProgress pr"
    using that by (rule Reads_callbacks)
  show ?thesis
    using a a' b c d e g ChecksumIEEE_check ChecksumIEEE_empty by blast
qed

theorem C8_progress_reader_witness:
  "Read \<lparr>pr_total = 10, pr_uploaded = 0, pr_onProgress = True, pr_hasher = Some IEEETable, pr_crc = 0\<rparr>
      ([0x31, 0x32, 0x33], Some (Errorf ''EOF''))
     = ((3, Some (Errorf ''EOF'')), [(3, 10)],
        \<lparr>pr_total = 10, pr_uploaded = 3, pr_onProgress = True, pr_hasher = Some IEEETable,
         pr_crc = 0x884863D2\<rparr>)
   \<and> Read \<lparr>pr_total = 10, pr_uploaded = 0, pr_onProgress = True, pr_hasher = Some IEEETable, pr_crc = 0\<rparr>
      ([], Some (Errorf ''EOF''))
     = ((0, Some (Errorf ''EOF'')), [],
        \<lparr>pr_total = 10, pr_uploaded = 0, pr_onProgress = True, pr_hasher = Some IEEETable, pr_crc = 0\<rparr>)
   \<and> pr_uploaded (snd (Reads
        \<lparr>pr_total = 10, pr_uploaded = 0, pr_onProgress = True, pr_hasher = Some IEEETable, pr_crc = 0\<rparr>
        [([0x31, 0x32], None), ([0x33], None), ([], Some (Errorf ''EOF''))])) = 3
   \<and> pr_crc (snd (Reads
        \<lparr>pr_total = 10, pr_uploaded = 0, pr_onProgress = True, pr_hasher = Some IEEETable, pr_crc = 0\<rparr>
        [([0x31, 0x32], None), ([0x33], None), ([], Some (Errorf ''EOF''))])) = 0x884863D2
   \<and> length (fst (Reads
        \<lparr>pr_total = 10, pr_uploaded = 0, pr_onProgress = True, pr_hasher = Some IEEETable, pr_crc = 0\<rparr>
        [([0x31, 0x32], None), ([0x33], None), ([], Some (Errorf ''EOF''))])) = 2"
proof -
  let ?pr = "\<lparr>pr_total = 10, pr_uploaded = 0, pr_onProgress = True, pr_hasher = Some IEEETable,
    pr_crc = 0\<rparr>"
  let ?rds = "[([0x31, 0x32], None), ([0x33], None), ([], Some (Errorf ''EOF''))]
    :: (byte list \<times> error option) list"
  note t = C8_progress_reader [of "[0x31, 0x32, 0x33]" ?pr "Some (Errorf ''EOF'')" ?rds]
  have c: "crc32_Update 0 IEEETable [0x31, 0x32, 0x33] = 0x884863D2"
    using ChecksumIEEE_123 by (simp add: ChecksumIEEE_def)
  have a1: "Read ?pr ([0x31, 0x32, 0x33], Some (Errorf ''EOF''))
     = ((3, Some (Errorf ''EOF'')), [(3, 10)],
        \<lparr>pr_total = 10, pr_uploaded = 3, pr_onProgress = True, pr_hasher = Some IEEETable,
         pr_crc = 0x884863D2\<rparr>)"
    using t c by simp
  have a2: "Read ?pr ([], Some (Errorf ''EOF'')) = ((0, Some (Errorf ''EOF'')), [], ?pr)"
    using t by simp
  have a3: "pr_uploaded (snd (Reads ?pr ?rds)) = 3" using t by simp
  have a4: "pr_crc (snd (Reads ?pr ?rds)) = 0x884863D2" using t ChecksumIEEE_123 by simp
  have a5: "length (fst (Reads ?pr ?rds)) = 2" using t by simp
  show ?thesis using a1 a2 a3 a4 a5 by blast
qed

text \<open>
  The claim as it was stated fails where the counter overflows: a reader whose counter is
  the largest \<^verbatim>\<open>int64\<close> and that delivers one more byte has the smallest
  \<^verbatim>\<open>int64\<close> as its counter afterwards.
\<close>

theorem C8_counter_overflow_counterexample:
  "pr_uploaded (snd (snd (Read
      \<lparr>pr_total = 0, pr_uploaded = 9223372036854775807, pr_onProgress = False,
       pr_hasher = None, pr_crc = 0\<rparr> ([0x61], None)))) = - 9223372036854775808
   \<and> - 9223372036854775808 \<noteq> 9223372036854775807 + int (length [0x61 :: byte])"
  by (simp add: Read_def int64_def)

subsection \<open>Properties of humanSize\<close>

declare nat_digits.simps [simp del] f64_shift.simps [simp del] hs_loop.simps [simp del]

lemma rhe_mono:
  assumes "0 < d" and "n \<le> n'"
  shows "round_half_even n d \<le> round_half_even n' d"
proof -
  have q: "n div d \<le> n' div d" using assms by (simp add: zdiv_mono1)
  show ?thesis
  proof (cases "n div d = n' div d")
    case True
    have "n mod d \<le> n' mod d"
      using assms True by (metis add_le_cancel_left mult_div_mod_eq)
    then show ?thesis using True by (auto simp: round_half_even_def Let_def)
  next
    case False
    then have "n div d + 1 \<le> n' div d" using q by simp
    moreover have "round_half_even n d \<le> n div d + 1" by (simp add: round_half_even_def Let_def)
    moreover have "n' div d \<le> round_half_even n' d" by (simp add: round_half_even_def Let_def)
    ultimately show ?thesis by linarith
  qed
qed

lemma rhe_exact: "0 < d \<Longrightarrow> round_half_even (k * d) d = k"
  by (simp add: round_half_even_def Let_def)

lemma f64_shift_bounds:
  "0 \<le> x \<Longrightarrow> x < 2 ^ (53 + f64_shift x) \<and> (0 < f64_shift x \<longrightarrow> 2 ^ (52 + f64_shift x) \<le> x)"
proof (induction x rule: f64_shift.induct)
  case (1 x)
  show ?case
  proof (cases "x < 2 ^ 53")
    case True
    then show ?thesis by (subst (1 2 3) f64_shift.simps) simp
  next
    case False
    then have ih: "x div 2 < 2 ^ (53 + f64_shift (x div 2))"
      "0 < f64_shift (x div 2) \<longrightarrow> 2 ^ (52 + f64_shift (x div 2)) \<le> x div 2"
      using 1 by simp_all
    have s: "f64_shift x = Suc (f64_shift (x div 2))" using False by (subst f64_shift.simps) simp
    have p1: "(2::int) ^ (53 + f64_shift x) = 2 * 2 ^ (53 + f64_shift (x div 2))"
      and p2: "(2::int) ^ (52 + f64_shift x) = 2 * 2 ^ (52 + f64_shift (x div 2))"
      unfolding s by (simp_all add: power_add)
    have "x < 2 * 2 ^ (53 + f64_shift (x div 2))" using ih(1) by linarith
    then have up: "x < 2 ^ (53 + f64_shift x)" unfolding p1 .
    have lo: "2 ^ (52 + f64_shift x) \<le> x"
    proof (cases "0 < f64_shift (x div 2)")
      case True
      then have "2 * 2 ^ (52 + f64_shift (x div 2)) \<le> x" using ih(2) by linarith
      then show ?thesis unfolding p2 .
    next
      case False
      then show ?thesis using s \<open>\<not> x < 2 ^ 53\<close> by simp
    qed
    show ?thesis using up lo by simp
  qed
qed


lemma float64_nonneg: "0 \<le> x \<Longrightarrow> float64 x = round_half_even x (2 ^ f64_shift x) * 2 ^ f64_shift x"
proof (cases "x = 0")
  case True
  then show ?thesis by (simp add: float64_def round_half_even_def)
next
  case False
  assume "0 \<le> x"
  then have "sgn x = 1" "abs x = x" using False by simp_all
  then show ?thesis by (simp add: float64_def)
qed

lemma float64_small: "0 \<le> x \<Longrightarrow> x < 2 ^ 53 \<Longrightarrow> float64 x = x"
  by (simp add: float64_nonneg f64_shift.simps [of x] round_half_even_def)

lemma f64_shift_mono:
  assumes "0 \<le> x" "x \<le> y"
  shows "f64_shift x \<le> f64_shift y"
proof (rule ccontr)
  assume "\<not> f64_shift x \<le> f64_shift y"
  then have lt: "f64_shift y < f64_shift x" by simp
  then have "(2::int) ^ (52 + f64_shift x) \<le> x" using f64_shift_bounds [of x] assms by simp
  moreover have "y < 2 ^ (53 + f64_shift y)" using f64_shift_bounds [of y] assms by simp
  ultimately have "(2::int) ^ (52 + f64_shift x) < 2 ^ (53 + f64_shift y)" using assms by linarith
  then have "52 + f64_shift x < 53 + f64_shift y" by simp
  then show False using lt by simp
qed

lemma float64_mono:
  assumes "0 \<le> x" "x \<le> y"
  shows "float64 x \<le> float64 y"
proof -
  let ?ex = "f64_shift x" and ?ey = "f64_shift y"
  have y0: "0 \<le> y" using assms by simp
  have le: "?ex \<le> ?ey" using assms by (rule f64_shift_mono)
  show ?thesis
  proof (cases "?ex = ?ey")
    case True
    have "round_half_even x (2 ^ ?ex) \<le> round_half_even y (2 ^ ?ex)"
      using assms by (intro rhe_mono) simp_all
    then have "round_half_even x (2 ^ ?ex) * 2 ^ ?ex \<le> round_half_even y (2 ^ ?ex) * 2 ^ ?ex"
      by (intro mult_right_mono) simp_all
    then show ?thesis using True assms y0 by (simp add: float64_nonneg)
  next
    case False
    then have lt: "?ex < ?ey" using le by simp
    have "x \<le> 2 ^ 53 * 2 ^ ?ex" using f64_shift_bounds [of x] assms by (simp add: power_add)
    then have "round_half_even x (2 ^ ?ex) \<le> round_half_even (2 ^ 53 * 2 ^ ?ex) (2 ^ ?ex)"
      by (intro rhe_mono) simp_all
    then have "round_half_even x (2 ^ ?ex) \<le> 2 ^ 53" by (simp add: rhe_exact)
    then have "round_half_even x (2 ^ ?ex) * 2 ^ ?ex \<le> 2 ^ 53 * 2 ^ ?ex"
      by (intro mult_right_mono) simp_all
    then have a: "float64 x \<le> 2 ^ (53 + ?ex)" using assms by (simp add: float64_nonneg power_add)
    have "53 + ?ex \<le> 52 + ?ey" using lt by simp
    then have b: "(2::int) ^ (53 + ?ex) \<le> 2 ^ (52 + ?ey)" by (intro power_increasing) simp_all
    have "2 ^ 52 * 2 ^ ?ey \<le> y" using f64_shift_bounds [of y] y0 lt by (simp add: power_add)
    then have "round_half_even (2 ^ 52 * 2 ^ ?ey) (2 ^ ?ey) \<le> round_half_even y (2 ^ ?ey)"
      by (intro rhe_mono) simp_all
    then have "2 ^ 52 \<le> round_half_even y (2 ^ ?ey)" by (simp add: rhe_exact)
    then have "2 ^ 52 * 2 ^ ?ey \<le> round_half_even y (2 ^ ?ey) * 2 ^ ?ey"
      by (intro mult_right_mono) simp_all
    then have c: "2 ^ (52 + ?ey) \<le> float64 y" using y0 by (simp add: float64_nonneg power_add)
    show ?thesis using a b c by linarith
  qed
qed

lemma float64_pow2: "float64 (2 ^ m) = 2 ^ m"
proof -
  define e where "e = f64_shift (2 ^ m)"
  have f: "float64 (2 ^ m) = round_half_even (2 ^ m) (2 ^ e) * 2 ^ e"
    by (simp add: float64_nonneg e_def)
  have b: "(2::int) ^ m < 2 ^ (53 + e)" "0 < e \<longrightarrow> (2::int) ^ (52 + e) \<le> 2 ^ m"
    using f64_shift_bounds [of "2 ^ m"] by (simp_all add: e_def)
  show ?thesis
  proof (cases "e = 0")
    case True
    then show ?thesis by (simp add: f round_half_even_def)
  next
    case False
    then have "52 + e \<le> m" using b(2) by simp
    moreover have "m < 53 + e" using b(1) by simp
    ultimately have m: "m = 52 + e" by simp
    have p: "(2::int) ^ m = 2 ^ 52 * 2 ^ e" by (subst m) (simp add: power_add)
    have r: "round_half_even (2 ^ m) (2 ^ e) = 2 ^ 52" unfolding p by (rule rhe_exact) simp
    have "float64 (2 ^ m) = 2 ^ 52 * 2 ^ e" unfolding f r ..
    then show ?thesis unfolding p .
  qed
qed

lemma pow1024: "(1024::int) ^ n = 2 ^ (10 * n)"
  by (simp add: power_mult)

lemma float64_pow1024: "float64 (1024 ^ n) = 1024 ^ n"
  by (simp only: pow1024 float64_pow2)

lemma float64_ge_pow1024: "1024 ^ n \<le> x \<Longrightarrow> 1024 ^ n \<le> float64 x"
  using float64_mono [of "1024 ^ n" x] by (simp add: float64_pow1024)

lemma float64_le_pow1024: "0 \<le> x \<Longrightarrow> x \<le> 1024 ^ n \<Longrightarrow> float64 x \<le> 1024 ^ n"
  using float64_mono [of x "1024 ^ n"] by (simp add: float64_pow1024)

lemma hs_loop_spec:
  "0 \<le> n \<Longrightarrow> dv = 1024 ^ Suc k \<Longrightarrow> n < 1024 ^ (6 - k) \<Longrightarrow> k \<le> 5 \<Longrightarrow>
   \<exists>j. hs_loop n dv k = (1024 ^ Suc j, j) \<and> k \<le> j \<and> j \<le> 5 \<and> n < 1024 ^ Suc (j - k) \<and>
       (1 \<le> n \<longrightarrow> 1024 ^ (j - k) \<le> n)"
proof (induction n dv k rule: hs_loop.induct)
  case (1 n dv ex)
  show ?case
  proof (cases "n \<ge> 1024")
    case False
    then have "hs_loop n dv ex = (dv, ex)" by (subst hs_loop.simps) simp
    then show ?thesis using False 1(3,5) by (intro exI [of _ ex]) simp
  next
    case True
    have ex4: "ex \<le> 4"
    proof (rule ccontr)
      assume "\<not> ex \<le> 4"
      then have "ex = 5" using 1(5) by simp
      then show False using 1(4) True by simp
    qed
    have dv': "int64 (dv * 1024) = 1024 ^ Suc (ex + 1)"
    proof -
      have "(1024::int) ^ Suc (Suc ex) \<le> 1024 ^ 6" using ex4 by (intro power_increasing) simp_all
      then have u: "dv * 1024 < 2 ^ 63" using 1(3) by simp
      have l: "- (2 ^ 63) \<le> dv * 1024" unfolding 1(3) by (rule order_trans [of _ 0]) simp_all
      have "int64 (dv * 1024) = dv * 1024" using l u by (rule int64_id)
      then show ?thesis using 1(3) by simp
    qed
    have n': "n div 1024 < 1024 ^ (6 - (ex + 1))"
    proof -
      have "(1024::int) ^ (6 - ex) = 1024 * 1024 ^ (6 - (ex + 1))"
        using ex4 by (simp add: power_Suc [symmetric] Suc_diff_le del: power_Suc)
      then have "n < 1024 * 1024 ^ (6 - (ex + 1))" using 1(4) by simp
      then show ?thesis by (simp add: div_less_iff_less_mult)
    qed
    have n0: "0 \<le> n div 1024" using 1(2) by (simp add: pos_imp_zdiv_nonneg_iff)
    have k': "ex + 1 \<le> 5" using ex4 by simp
    obtain j where j: "hs_loop (n div 1024) (int64 (dv * 1024)) (ex + 1) = (1024 ^ Suc j, j)"
        "ex + 1 \<le> j" "j \<le> 5" "n div 1024 < 1024 ^ Suc (j - (ex + 1))"
        "1 \<le> n div 1024 \<longrightarrow> 1024 ^ (j - (ex + 1)) \<le> n div 1024"
      using 1(1) [OF True n0 dv' n' k'] by auto
    have h: "hs_loop n dv ex = (1024 ^ Suc j, j)" using True j(1) by (subst hs_loop.simps) simp
    define m where "m = j - (ex + 1)"
    have je: "j - ex = Suc m" using j(2) by (simp add: m_def)
    have "n div 1024 < 1024 ^ Suc m" using j(4) by (simp add: m_def)
    then have "n < 1024 * 1024 ^ Suc m" by (simp add: div_less_iff_less_mult)
    then have up: "n < 1024 ^ Suc (j - ex)" unfolding je by simp
    have "1 \<le> n div 1024" using True by simp
    then have "1024 ^ m \<le> n div 1024" using j(5) by (simp add: m_def)
    moreover have "\<And>y::int. y \<le> n div 1024 \<Longrightarrow> 1024 * y \<le> n" by linarith
    ultimately have "1024 * 1024 ^ m \<le> n" by blast
    then have lo: "1024 ^ (j - ex) \<le> n" unfolding je by simp
    show ?thesis using h j(2,3) up lo by (intro exI [of _ j]) simp
  qed
qed

lemma hs_value_scaled:
  assumes "1024 \<le> b" "b < 2 ^ 63"
  shows "\<exists>j\<le>5. 1024 ^ Suc j \<le> b \<and> b < 1024 ^ Suc (Suc j) \<and>
           hs_value b = Scaled (round_half_even (10 * float64 b) (1024 ^ Suc j)) j"
proof -
  let ?n = "b div 1024"
  have n0: "0 \<le> ?n" and n1: "1 \<le> ?n" using assms(1) by simp_all
  have "?n < 2 ^ 53" using assms(2) by simp
  then have n6: "?n < 1024 ^ (6 - 0)" by simp
  obtain j where j: "hs_loop ?n 1024 0 = (1024 ^ Suc j, j)" "j \<le> 5"
      "?n < 1024 ^ Suc (j - 0)" "1024 ^ (j - 0) \<le> ?n"
    using hs_loop_spec [OF n0 _ n6, of 1024] n1 by auto
  have "\<And>y::int. y \<le> b div 1024 \<Longrightarrow> 1024 * y \<le> b" by linarith
  then have lo: "1024 ^ Suc j \<le> b" using j(4) by simp
  have "\<And>y::int. b div 1024 < y \<Longrightarrow> b < 1024 * y" by linarith
  then have up: "b < 1024 ^ Suc (Suc j)" using j(3) by simp
  have "hs_value b = Scaled (round_half_even (10 * float64 b) (float64 (1024 ^ Suc j))) j"
    using assms(1) j(1) by (simp add: hs_value_def)
  then have "hs_value b = Scaled (round_half_even (10 * float64 b) (1024 ^ Suc j)) j"
    by (simp only: float64_pow1024)
  then show ?thesis using j(2) lo up by blast
qed

lemma tenths_bounds:
  assumes "1024 ^ Suc j \<le> b" "b < 1024 ^ Suc (Suc j)"
  shows "10 \<le> round_half_even (10 * float64 b) (1024 ^ Suc j)"
    and "round_half_even (10 * float64 b) (1024 ^ Suc j) \<le> 10240"
proof -
  have b0: "0 \<le> b" using assms(1) by (rule order_trans [rotated]) simp
  have "1024 ^ Suc j \<le> float64 b" using assms(1) by (rule float64_ge_pow1024)
  then have "10 * 1024 ^ Suc j \<le> 10 * float64 b" by simp
  then have "round_half_even (10 * 1024 ^ Suc j) (1024 ^ Suc j) \<le> round_half_even (10 * float64 b) (1024 ^ Suc j)"
    by (intro rhe_mono) simp_all
  then show "10 \<le> round_half_even (10 * float64 b) (1024 ^ Suc j)"
    using rhe_exact [of "1024 ^ Suc j" 10] by simp
  have "float64 b \<le> 1024 ^ Suc (Suc j)" using b0 assms(2) by (intro float64_le_pow1024) simp_all
  then have "10 * float64 b \<le> 10240 * 1024 ^ Suc j" by simp
  then have "round_half_even (10 * float64 b) (1024 ^ Suc j) \<le> round_half_even (10240 * 1024 ^ Suc j) (1024 ^ Suc j)"
    by (intro rhe_mono) simp_all
  then show "round_half_even (10 * float64 b) (1024 ^ Suc j) \<le> 10240"
    using rhe_exact [of "1024 ^ Suc j" 10240] by simp
qed

lemma magnitude_mono:
  assumes "a \<le> b" "b < 2 ^ 63"
  shows "magnitude (hs_value a) \<le> magnitude (hs_value b)"
proof (cases "b < 1024")
  case True
  then show ?thesis using assms by (simp add: hs_value_def magnitude_def)
next
  case False
  then obtain j where j: "j \<le> 5" "1024 ^ Suc j \<le> b" "b < 1024 ^ Suc (Suc j)"
      "hs_value b = Scaled (round_half_even (10 * float64 b) (1024 ^ Suc j)) j"
    using hs_value_scaled [of b] assms(2) by auto
  let ?tb = "round_half_even (10 * float64 b) (1024 ^ Suc j)"
  have mb: "magnitude (hs_value b) = ?tb * 1024 ^ Suc j" by (simp add: j(4) magnitude_def)
  have "10 * 1024 ^ Suc j \<le> ?tb * 1024 ^ Suc j"
    using tenths_bounds(1) [OF j(2,3)] by (intro mult_right_mono) simp_all
  then have mb_lo: "10 * 1024 ^ Suc j \<le> magnitude (hs_value b)" using mb by simp
  show ?thesis
  proof (cases "a < 1024")
    case True
    have "(1024::int) \<le> 1024 ^ Suc j" using power_increasing [of 1 "Suc j" "1024::int"] by simp
    then have "a \<le> 1024 ^ Suc j" using True by linarith
    then have "10 * a \<le> 10 * 1024 ^ Suc j" by linarith
    then show ?thesis using True mb_lo by (simp add: hs_value_def magnitude_def)
  next
    case False
    then obtain i where i: "i \<le> 5" "1024 ^ Suc i \<le> a" "a < 1024 ^ Suc (Suc i)"
        "hs_value a = Scaled (round_half_even (10 * float64 a) (1024 ^ Suc i)) i"
      using hs_value_scaled [of a] assms by auto
    let ?ta = "round_half_even (10 * float64 a) (1024 ^ Suc i)"
    have ma: "magnitude (hs_value a) = ?ta * 1024 ^ Suc i" by (simp add: i(4) magnitude_def)
    have "(1024::int) ^ Suc i < 1024 ^ Suc (Suc j)" using i(2) assms(1) j(3) by linarith
    then have "Suc i < Suc (Suc j)" by (simp only: power_strict_increasing_iff) 
    then have ij: "i \<le> j" by simp
    show ?thesis
    proof (cases "i = j")
      case True
      have a0: "0 \<le> a" using False by simp
      have "float64 a \<le> float64 b" using a0 assms(1) by (rule float64_mono)
      then have "?ta \<le> ?tb" unfolding True by (intro rhe_mono) simp_all
      then have "?ta * 1024 ^ Suc j \<le> ?tb * 1024 ^ Suc j" by (intro mult_right_mono) simp_all
      then show ?thesis using ma mb True by simp
    next
      case False
      then have "Suc (Suc i) \<le> Suc j" using ij by simp
      then have p: "(1024::int) ^ Suc (Suc i) \<le> 1024 ^ Suc j" by (intro power_increasing) simp_all
      have "?ta * 1024 ^ Suc i \<le> 10240 * 1024 ^ Suc i"
        using tenths_bounds(2) [OF i(2,3)] by (intro mult_right_mono) simp_all
      also have "\<dots> = 10 * 1024 ^ Suc (Suc i)" by simp
      also have "\<dots> \<le> 10 * 1024 ^ Suc j" using p by simp
      finally have x: "?ta * 1024 ^ Suc i \<le> 10 * 1024 ^ Suc j" .
      show ?thesis unfolding ma by (rule order_trans [OF x mb_lo])
    qed
  qed
qed

lemma humanSize_scaled:
  assumes "1024 \<le> b" "b < 2 ^ 63"
  shows "\<exists>j\<le>5. 1024 ^ Suc j \<le> b \<and> b < 1024 ^ Suc (Suc j) \<and>
     humanSize b = Inr (Itoa (round_half_even (10 * float64 b) (1024 ^ Suc j) div 10) @ ''.'' @
        Itoa (round_half_even (10 * float64 b) (1024 ^ Suc j) mod 10) @ '' '' @ [''KMGTPE'' ! j] @ ''B'')"
proof -
  obtain j where j: "j \<le> 5" "1024 ^ Suc j \<le> b" "b < 1024 ^ Suc (Suc j)"
      "hs_value b = Scaled (round_half_even (10 * float64 b) (1024 ^ Suc j)) j"
    using hs_value_scaled [OF assms] by auto
  have "humanSize b = Inr (Itoa (round_half_even (10 * float64 b) (1024 ^ Suc j) div 10) @ ''.'' @
        Itoa (round_half_even (10 * float64 b) (1024 ^ Suc j) mod 10) @ '' '' @ [''KMGTPE'' ! j] @ ''B'')"
    using j(1) by (simp add: humanSize_def j(4) hs_render_def)
  then show ?thesis using j(1,2,3) by blast
qed

lemma humanSize_plain: "b < 1024 \<Longrightarrow> humanSize b = Inr (Itoa b @ '' B'')"
  by (simp add: humanSize_def hs_value_def hs_render_def)

text \<open>
  C9. humanSize prints the six sizes as stated. It uses binary prefixes: a size below
  1024 is printed in bytes, and a size \<open>b\<close> of at least 1024 is printed with the unit
  of index \<open>j\<close>, where \<open>1024 ^ (j + 1) \<le> b < 1024 ^ (j + 2)\<close>, as the quotient of
  \<open>b\<close> by \<open>1024 ^ (j + 1)\<close> rounded to one decimal; the index never leaves the string
  of units for an \<^verbatim>\<open>int64\<close>. It is monotonic: the quantity that the printed size
  stands for never decreases when the input grows, over all \<^verbatim>\<open>int64\<close> inputs, the
  rounding of the conversion to \<^verbatim>\<open>float64\<close> included.
\<close>

theorem C9_humanSize:
  "humanSize 0 = Inr ''0 B'' \<and> humanSize 1023 = Inr ''1023 B''
   \<and> humanSize 1024 = Inr ''1.0 KB'' \<and> humanSize 1536 = Inr ''1.5 KB''
   \<and> humanSize 1048576 = Inr ''1.0 MB'' \<and> humanSize 1073741824 = Inr ''1.0 GB''
   \<and> (a \<le> b \<and> b < 2 ^ 63 \<longrightarrow> magnitude (hs_value a) \<le> magnitude (hs_value b))
   \<and> (b < 1024 \<longrightarrow> humanSize b = Inr (Itoa b @ '' B''))
   \<and> (1024 \<le> b \<and> b < 2 ^ 63 \<longrightarrow>
        (\<exists>j\<le>5. 1024 ^ Suc j \<le> b \<and> b < 1024 ^ Suc (Suc j) \<and>
           hs_value b = Scaled (round_half_even (10 * float64 b) (1024 ^ Suc j)) j \<and>
           humanSize b =
             Inr (Itoa (round_half_even (10 * float64 b) (1024 ^ Suc j) div 10) @ ''.'' @
                  Itoa (round_half_even (10 * float64 b) (1024 ^ Suc j) mod 10) @
                  '' '' @ [''KMGTPE'' ! j] @ ''B'')))"
proof -
  have v: "humanSize 0 = Inr ''0 B''" "humanSize 1023 = Inr ''1023 B''"
    "humanSize 1024 = Inr ''1.0 KB''" "humanSize 1536 = Inr ''1.5 KB''"
    "humanSize 1048576 = Inr ''1.0 MB''" "humanSize 1073741824 = Inr ''1.0 GB''"
    by code_simp+
  have m: "a \<le> b \<and> b < 2 ^ 63 \<longrightarrow> magnitude (hs_value a) \<le> magnitude (hs_value b)"
    using magnitude_mono by blast
  have p: "b < 1024 \<longrightarrow> humanSize b = Inr (Itoa b @ '' B'')"
    using humanSize_plain by blast
  have s: "1024 \<le> b \<and> b < 2 ^ 63 \<longrightarrow>
        (\<exists>j\<le>5. 1024 ^ Suc j \<le> b \<and> b < 1024 ^ Suc (Suc j) \<and>
           hs_value b = Scaled (round_half_even (10 * float64 b) (1024 ^ Suc j)) j \<and>
           humanSize b =
             Inr (Itoa (round_half_even (10 * float64 b) (1024 ^ Suc j) div 10) @ ''.'' @
                  Itoa (round_half_even (10 * float64 b) (1024 ^ Suc j) mod 10) @
                  '' '' @ [''KMGTPE'' ! j] @ ''B''))"
  proof
    assume h: "1024 \<le> b \<and> b < 2 ^ 63"
    then obtain j where j: "j \<le> 5" "1024 ^ Suc j \<le> b" "b < 1024 ^ Suc (Suc j)"
        "hs_value b = Scaled (round_half_even (10 * float64 b) (1024 ^ Suc j)) j"
      using hs_value_scaled [of b] by auto
    have "humanSize b =
             Inr (Itoa (round_half_even (10 * float64 b) (1024 ^ Suc j) div 10) @ ''.'' @
                  Itoa (round_half_even (10 * float64 b) (1024 ^ Suc j) mod 10) @
                  '' '' @ [''KMGTPE'' ! j] @ ''B'')"
      using j(1) by (simp add: humanSize_def j(4) hs_render_def)
    then show "\<exists>j\<le>5. 1024 ^ Suc j \<le> b \<and> b < 1024 ^ Suc (Suc j) \<and>
           hs_value b = Scaled (round_half_even (10 * float64 b) (1024 ^ Suc j)) j \<and>
           humanSize b =
             Inr (Itoa (round_half_even (10 * float64 b) (1024 ^ Suc j) div 10) @ ''.'' @
                  Itoa (round_half_even (10 * float64 b) (1024 ^ Suc j) mod 10) @
                  '' '' @ [''KMGTPE'' ! j] @ ''B'')"
      using j by blast
  qed
  show ?thesis using v m p s by blast
qed

theorem C9_humanSize_witness:
  "(1048575::int) \<le> 1048576 \<and> (1048576::int) < 2 ^ 63 \<and> (1024::int) \<le> 1048576
   \<and> humanSize 1048575 = Inr ''1024.0 KB'' \<and> humanSize 1048576 = Inr ''1.0 MB''
   \<and> magnitude (hs_value 1048575) \<le> magnitude (hs_value 1048576)
   \<and> hs_value 1048576 = Scaled 10 1
   \<and> humanSize 1000 = Inr ''1000 B''"
proof -
  have e: "humanSize 1048575 = Inr ''1024.0 KB''" "humanSize 1048576 = Inr ''1.0 MB''"
    "hs_value 1048576 = Scaled 10 1" "humanSize 1000 = Inr ''1000 B''"
    by code_simp+
  have "magnitude (hs_value 1048575) \<le> magnitude (hs_value 1048576)"
    using C9_humanSize [of 1048575 1048576] by simp
  then show ?thesis using e by simp
qed

subsection \<open>Properties of the multipart transfer\<close>

lemma stage_of_set_stage:
  "stage_of (set_stage p st gs) q = (if q = p then (if stage_of gs p = None then None else Some st) else stage_of gs q)"
  by (induction gs) (auto simp: stage_of_def set_stage_def)

lemma pNum_set_stage [simp]: "map pNum (set_stage p st gs) = map pNum gs"
  by (induction gs) (auto simp: set_stage_def)

lemma stage_of_None_iff: "stage_of gs p = None \<longleftrightarrow> p \<notin> set (map pNum gs)"
  by (induction gs) (auto simp: stage_of_def)

lemma stage_of_Some_mem: "stage_of gs p = Some st \<Longrightarrow> p \<in> set (map pNum gs)"
  using stage_of_None_iff [of gs p] by auto

lemma stage_of_distinct:
  "distinct (map pNum gs) \<Longrightarrow> g \<in> set gs \<Longrightarrow> stage_of gs (pNum g) = Some (g_stage g)"
  by (induction gs) (auto simp: stage_of_def rev_image_eqI)

lemma set_stage_mem:
  "g \<in> set (set_stage p st gs) \<Longrightarrow>
     (g \<in> set gs \<and> pNum g \<noteq> p) \<or> (pNum g = p \<and> g_stage g = st)"
  by (auto simp: set_stage_def split: if_splits)

lemma stage_of_append:
  "stage_of (gs @ [g]) q = (case stage_of gs q of Some st \<Rightarrow> Some st | None \<Rightarrow> if q = pNum g then Some (g_stage g) else None)"
  by (simp add: stage_of_def map_add_def split: option.splits)

lemma stage_of_filter:
  "stage_of (filter (\<lambda>g. pNum g \<noteq> p) gs) q = (if q = p then None else stage_of gs q)"
  by (induction gs) (auto simp: stage_of_def)

lemma init_inv_parts: "inv_parts (init_state ir)"
  by (simp add: inv_parts_def init_state_def part_numbers_def)

lemma part_done_inv_parts:
  assumes "inv_parts s" "part_done env p s = Some s'"
  shows "inv_parts s'"
proof -
  have up: "stage_of (goroutines s) p = Some Uploading"
    using assms(2) by (simp add: part_done_def split: if_splits)
  then have pin: "p \<in> set (map pNum (goroutines s))" by (rule stage_of_Some_mem)
  then obtain g where g: "g \<in> set (goroutines s)" "pNum g = p" by auto
  have "stage_of (goroutines s) (pNum g) = Some (g_stage g)"
    using assms(1) g(1) by (intro stage_of_distinct) (simp_all add: inv_parts_def)
  then have "g_stage g = Uploading" using up g(2) by simp
  then have pnot: "p \<notin> set (part_numbers (parts s))" using assms(1) g by (auto simp: inv_parts_def)
  have prange: "p \<in> {1..<partNum s}" using assms(1) pin by (auto simp: inv_parts_def)
  show ?thesis
  proof (cases "uploadPart_result env p")
    case (Inl err)
    then have s': "s' = s\<lparr>uploadErr := (case uploadErr s of
                                     None \<Rightarrow> Some (Wrapf (''part '' @ Itoa p @ '' failed'') err)
                                   | Some e \<Rightarrow> Some e),
                     goroutines := set_stage p Recorded (goroutines s)\<rparr>"
      using assms(2) up by (simp add: part_done_def)
    have e: "uploadErr s' \<noteq> None" by (simp add: s' split: option.splits)
    show ?thesis using assms(1) e
      by (auto simp: inv_parts_def s' dest!: set_stage_mem split: option.splits)
  next
    case (Inr etag)
    then have s': "s' = s\<lparr>parts := parts s @ [\<lparr>PartNumber = p, ETag = etag\<rparr>],
                     goroutines := set_stage p Recorded (goroutines s)\<rparr>"
      using assms(2) up by (simp add: part_done_def)
    show ?thesis using assms(1) pnot prange
      by (auto simp: inv_parts_def s' part_numbers_def stage_of_set_stage dest!: set_stage_mem)
  qed
qed


lemma part_release_inv_parts:
  assumes "inv_parts s" "part_release p s = Some s'"
  shows "inv_parts s'"
proof -
  have st: "stage_of (goroutines s) p = Some Recorded"
    and s': "s' = s\<lparr>goroutines := set_stage p Released (goroutines s)\<rparr>"
    using assms(2) by (simp_all add: part_release_def split: if_splits)
  have pr: "p \<in> {1..<partNum s}" using assms(1) stage_of_Some_mem [OF st] by (auto simp: inv_parts_def)
  have "\<forall>p\<in>{1..<partNum s}. stage_of (goroutines s) p = Some Uploading
            \<or> p \<in> set (part_numbers (parts s)) \<or> uploadErr s \<noteq> None"
    using assms(1) by (simp add: inv_parts_def)
  then have "stage_of (goroutines s) p = Some Uploading
            \<or> p \<in> set (part_numbers (parts s)) \<or> uploadErr s \<noteq> None"
    using pr by blast
  then have "p \<in> set (part_numbers (parts s)) \<or> uploadErr s \<noteq> None"
    using st by simp
  then show ?thesis using assms(1) st
    by (auto simp: inv_parts_def s' stage_of_set_stage dest!: set_stage_mem)
qed

lemma part_exit_inv_parts:
  assumes "inv_parts s" "part_exit p s = Some s'"
  shows "inv_parts s'"
proof -
  have st: "stage_of (goroutines s) p = Some Released"
    and s': "s' = s\<lparr>goroutines := filter (\<lambda>g. pNum g \<noteq> p) (goroutines s)\<rparr>"
    using assms(2) by (simp_all add: part_exit_def split: if_splits)
  have pr: "p \<in> {1..<partNum s}" using assms(1) stage_of_Some_mem [OF st] by (auto simp: inv_parts_def)
  have "\<forall>p\<in>{1..<partNum s}. stage_of (goroutines s) p = Some Uploading
            \<or> p \<in> set (part_numbers (parts s)) \<or> uploadErr s \<noteq> None"
    using assms(1) by (simp add: inv_parts_def)
  then have "stage_of (goroutines s) p = Some Uploading
            \<or> p \<in> set (part_numbers (parts s)) \<or> uploadErr s \<noteq> None"
    using pr by blast
  then have "p \<in> set (part_numbers (parts s)) \<or> uploadErr s \<noteq> None"
    using st by simp
  then show ?thesis using assms(1) st
    by (auto simp: inv_parts_def s' stage_of_filter distinct_map_filter)
qed

lemma get_url_step_frame:
  "get_url_step ir f env s = Some s' \<Longrightarrow>
   partNum s' = partNum s \<and> goroutines s' = goroutines s \<and> parts s' = parts s
   \<and> uploadErr s' = uploadErr s \<and> cancelled s' = cancelled s"
  by (auto simp add: get_url_step_def Let_def split: option.splits sum.splits)

lemma inv_parts_frame:
  "partNum s' = partNum s \<Longrightarrow> goroutines s' = goroutines s \<Longrightarrow> parts s' = parts s \<Longrightarrow>
   uploadErr s' = uploadErr s \<Longrightarrow> inv_parts s' = inv_parts s"
  by (simp add: inv_parts_def)

lemma main_step_frame:
  assumes "main_step ir f env s = Some s'" "\<forall>url off len. pc s \<noteq> Acquire url off len"
  shows "partNum s' = partNum s \<and> goroutines s' = goroutines s \<and> parts s' = parts s
    \<and> uploadErr s' = uploadErr s \<and> cancelled s' = cancelled s"
proof (cases "pc s")
  case GetURL
  then have "get_url_step ir f env s = Some s'" using assms(1) by (simp add: main_step_def)
  then show ?thesis by (rule get_url_step_frame)
qed (use assms in \<open>auto simp: main_step_def Let_def split: if_splits option.splits sum.splits\<close>)

lemma main_step_inv_parts:
  assumes "inv_parts s" "main_step ir f env s = Some s'"
  shows "inv_parts s'"
proof (cases "pc s")
  case (Acquire url off len)
  then have s': "s' = s\<lparr>goroutines := goroutines s @
                          [\<lparr>pNum = partNum s, pURL = url, pOffset = off, pSize = len,
                            g_stage = Uploading\<rparr>],
                        partNum := partNum s + 1, pc := LoopHead\<rparr>"
    using assms(2) by (simp add: main_step_def split: if_splits)
  have a: "1 \<le> partNum s'" using assms(1) by (simp add: s' inv_parts_def)
  have b: "distinct (map pNum (goroutines s'))" "set (map pNum (goroutines s')) \<subseteq> {1..<partNum s'}"
    using assms(1) by (auto simp: s' inv_parts_def)
  have c: "distinct (part_numbers (parts s'))" "set (part_numbers (parts s')) \<subseteq> {1..<partNum s'}"
    using assms(1) by (auto simp: s' inv_parts_def)
  have d: "\<forall>g\<in>set (goroutines s'). g_stage g = Uploading \<longrightarrow> pNum g \<notin> set (part_numbers (parts s'))"
    using assms(1) by (auto simp: s' inv_parts_def)
  have e: "\<forall>p\<in>{1..<partNum s'}. stage_of (goroutines s') p = Some Uploading
            \<or> p \<in> set (part_numbers (parts s')) \<or> uploadErr s' \<noteq> None"
  proof
    fix p assume "p \<in> {1..<partNum s'}"
    then have "p \<in> {1..<partNum s} \<or> p = partNum s" by (auto simp: s')
    then show "stage_of (goroutines s') p = Some Uploading
            \<or> p \<in> set (part_numbers (parts s')) \<or> uploadErr s' \<noteq> None"
    proof
      assume "p \<in> {1..<partNum s}"
      then have "stage_of (goroutines s) p = Some Uploading
            \<or> p \<in> set (part_numbers (parts s)) \<or> uploadErr s \<noteq> None"
        using assms(1) by (simp add: inv_parts_def)
      then show ?thesis by (auto simp: s' stage_of_append)
    next
      assume "p = partNum s"
      moreover have "stage_of (goroutines s) (partNum s) = None"
        using assms(1) by (auto simp: stage_of_None_iff inv_parts_def)
      ultimately show ?thesis by (simp add: s' stage_of_append)
    qed
  qed
  show ?thesis unfolding inv_parts_def using a b c d e by blast
qed (use assms main_step_frame [of ir f env s s'] inv_parts_frame [of s' s] in simp_all)

lemma step_inv_parts:
  assumes "inv_parts s" "step ir f env e s = Some s'"
  shows "inv_parts s'"
proof -
  have nf: "step ir f env e s =
      (case e of Cancel \<Rightarrow> Some (s\<lparr>cancelled := True\<rparr>) | Main \<Rightarrow> main_step ir f env s
       | PartDone p \<Rightarrow> part_done env p s | PartRelease p \<Rightarrow> part_release p s
       | PartExit p \<Rightarrow> part_exit p s)"
    using assms(2) by (cases "pc s") (simp_all add: step_def)
  show ?thesis
  proof (cases e)
    case Cancel
    then show ?thesis using assms nf by (auto simp: inv_parts_def)
  next
    case Main
    then show ?thesis using assms nf main_step_inv_parts by simp
  next
    case (PartDone p)
    then show ?thesis using assms nf part_done_inv_parts by simp
  next
    case (PartRelease p)
    then show ?thesis using assms nf part_release_inv_parts by simp
  next
    case (PartExit p)
    then show ?thesis using assms nf part_exit_inv_parts by simp
  qed
qed

lemma stage_of_Some_nonempty: "stage_of gs p = Some st \<Longrightarrow> gs \<noteq> []"
  by (auto simp: stage_of_def)

lemma inv_ctl_goroutine_event:
  assumes "inv_ctl ir s" "pc s' = pc s" "partNum s' = partNum s" "calls s' = calls s"
    "cancelled s' = cancelled s" "goroutines s \<noteq> []" "uploadErr s \<noteq> None \<longrightarrow> uploadErr s' \<noteq> None"
  shows "inv_ctl ir s'"
  using assms
  by (cases "pc s")
    (auto simp: inv_ctl_def finalized_def complete_calls_def split: outcome.splits sum.splits)

lemma part_done_inv_ctl:
  assumes "inv_ctl ir s" "part_done env p s = Some s'"
  shows "inv_ctl ir s'"
proof -
  have up: "stage_of (goroutines s) p = Some Uploading"
    using assms(2) by (simp add: part_done_def split: if_splits)
  have fr: "pc s' = pc s \<and> partNum s' = partNum s \<and> calls s' = calls s \<and> cancelled s' = cancelled s
      \<and> (uploadErr s \<noteq> None \<longrightarrow> uploadErr s' \<noteq> None)"
    using assms(2) up by (auto simp: part_done_def split: sum.splits option.splits)
  show ?thesis
    by (rule inv_ctl_goroutine_event [OF assms(1)]) (use fr stage_of_Some_nonempty [OF up] in simp_all)
qed

lemma part_release_inv_ctl:
  assumes "inv_ctl ir s" "part_release p s = Some s'"
  shows "inv_ctl ir s'"
proof -
  have up: "stage_of (goroutines s) p = Some Recorded"
    using assms(2) by (simp add: part_release_def split: if_splits)
  have fr: "pc s' = pc s \<and> partNum s' = partNum s \<and> calls s' = calls s \<and> cancelled s' = cancelled s
      \<and> (uploadErr s \<noteq> None \<longrightarrow> uploadErr s' \<noteq> None)"
    using assms(2) up by (auto simp: part_release_def)
  show ?thesis
    by (rule inv_ctl_goroutine_event [OF assms(1)]) (use fr stage_of_Some_nonempty [OF up] in simp_all)
qed

lemma part_exit_inv_ctl:
  assumes "inv_ctl ir s" "part_exit p s = Some s'"
  shows "inv_ctl ir s'"
proof -
  have up: "stage_of (goroutines s) p = Some Released"
    using assms(2) by (simp add: part_exit_def split: if_splits)
  have fr: "pc s' = pc s \<and> partNum s' = partNum s \<and> calls s' = calls s \<and> cancelled s' = cancelled s
      \<and> (uploadErr s \<noteq> None \<longrightarrow> uploadErr s' \<noteq> None)"
    using assms(2) up by (auto simp: part_exit_def)
  show ?thesis
    by (rule inv_ctl_goroutine_event [OF assms(1)]) (use fr stage_of_Some_nonempty [OF up] in simp_all)
qed

lemma cancel_inv_ctl: "inv_ctl ir s \<Longrightarrow> inv_ctl ir (s\<lparr>cancelled := True\<rparr>)"
  by (cases "pc s")
    (auto simp: inv_ctl_def finalized_def complete_calls_def split: outcome.splits sum.splits)

lemma get_url_step_calls:
  "get_url_step ir f env s = Some s' \<Longrightarrow>
   complete_calls s' = complete_calls s \<and> abort_calls s' = abort_calls s"
  by (auto simp add: get_url_step_def Let_def complete_calls_def abort_calls_def
      split: option.splits sum.splits)

lemma get_url_step_pc:
  "get_url_step ir f env s = Some s' \<Longrightarrow>
   (\<exists>url off len. pc s' = Acquire url off len)
   \<or> (\<exists>msg. pc s' = Deferred (Panic msg))
   \<or> (\<exists>err. pc s' = Deferred (Return (Inl err)))"
  by (auto simp add: get_url_step_def Let_def split: option.splits sum.splits)

lemma main_step_inv_ctl:
  assumes "inv_ctl ir s" "main_step ir f env s = Some s'"
  shows "inv_ctl ir s'"
proof (cases "pc s")
  case GetURL
  then have s': "get_url_step ir f env s = Some s'" using assms(2) by (simp add: main_step_def)
  have fr: "partNum s' = partNum s" "complete_calls s' = complete_calls s"
    using get_url_step_frame [OF s'] get_url_step_calls [OF s'] by simp_all
  have i: "partNum s \<le> TotalParts ir" "complete_calls s = []"
    "partNum s \<le> TotalParts ir + 1 \<or> partNum s = 1"
    using assms(1) GetURL by (simp_all add: inv_ctl_def)
  show ?thesis using get_url_step_pc [OF s'] fr i
    by (auto simp: inv_ctl_def)
next
  case LoopHead
  then show ?thesis using assms by (auto simp: main_step_def inv_ctl_def complete_calls_def split: if_splits)
next
  case CheckErr
  then show ?thesis using assms by (auto simp: main_step_def inv_ctl_def complete_calls_def split: if_splits)
next
  case (Acquire url off len)
  then show ?thesis using assms by (auto simp: main_step_def inv_ctl_def complete_calls_def split: if_splits)
next
  case WaitAll
  then show ?thesis using assms by (auto simp: main_step_def inv_ctl_def complete_calls_def split: if_splits)
next
  case CheckCtx
  then show ?thesis using assms by (auto simp: main_step_def inv_ctl_def complete_calls_def split: if_splits)
next
  case CheckUploadErr
  then show ?thesis using assms
    by (auto simp: main_step_def inv_ctl_def complete_calls_def split: if_splits option.splits)
next
  case Complete
  then show ?thesis using assms
    by (auto simp: main_step_def inv_ctl_def complete_calls_def finalized_def Let_def
        split: if_splits option.splits)
next
  case ComputeCRC
  then show ?thesis using assms
    by (auto simp: main_step_def inv_ctl_def complete_calls_def finalized_def split: sum.splits)
next
  case (Deferred out)
  then show ?thesis using assms
    by (auto simp: main_step_def inv_ctl_def complete_calls_def finalized_def
        split: if_splits outcome.splits sum.splits)
next
  case (Finished out)
  then show ?thesis using assms by (simp add: main_step_def)
qed

lemma step_unfold:
  "step ir f env e s = Some s' \<Longrightarrow>
     step ir f env e s =
      (case e of Cancel \<Rightarrow> Some (s\<lparr>cancelled := True\<rparr>) | Main \<Rightarrow> main_step ir f env s
       | PartDone p \<Rightarrow> part_done env p s | PartRelease p \<Rightarrow> part_release p s
       | PartExit p \<Rightarrow> part_exit p s)"
  by (cases "pc s") (simp_all add: step_def)

lemma step_inv_ctl:
  assumes "inv_ctl ir s" "step ir f env e s = Some s'"
  shows "inv_ctl ir s'"
proof (cases e)
  case Cancel
  then show ?thesis using assms step_unfold [OF assms(2)] cancel_inv_ctl [of ir s] by simp
next
  case Main
  then show ?thesis using assms step_unfold [OF assms(2)] main_step_inv_ctl [of ir s f env s'] by simp
next
  case (PartDone p)
  then show ?thesis using assms step_unfold [OF assms(2)] part_done_inv_ctl [of ir s env p s'] by simp
next
  case (PartRelease p)
  then show ?thesis using assms step_unfold [OF assms(2)] part_release_inv_ctl [of ir s p s'] by simp
next
  case (PartExit p)
  then show ?thesis using assms step_unfold [OF assms(2)] part_exit_inv_ctl [of ir s p s'] by simp
qed

lemma init_inv_ctl: "inv_ctl ir (init_state ir)"
  by (simp add: inv_ctl_def init_state_def complete_calls_def)

lemma goroutine_event_frame:
  "part_done env p s = Some s' \<or> part_release p s = Some s' \<or> part_exit p s = Some s' \<Longrightarrow>
   pc s' = pc s \<and> calls s' = calls s \<and> cancelled s' = cancelled s \<and> partNum s' = partNum s"
  by (auto simp: part_done_def part_release_def part_exit_def split: if_splits sum.splits)

lemma step_not_finished: "step ir f env e s = Some s' \<Longrightarrow> \<forall>out. pc s \<noteq> Finished out"
  by (auto simp: step_def)

lemma inv_abort_frame:
  "inv_abort ir s \<Longrightarrow> \<forall>out. pc s \<noteq> Finished out \<Longrightarrow> pc s' = pc s \<Longrightarrow> calls s' = calls s
   \<Longrightarrow> inv_abort ir s'"
  by (cases "pc s") (simp_all add: inv_abort_def abort_calls_def)

lemma main_step_inv_abort:
  assumes "inv_abort ir s" "main_step ir f env s = Some s'"
  shows "inv_abort ir s'"
proof (cases "pc s")
  case GetURL
  then have s': "get_url_step ir f env s = Some s'" using assms(2) by (simp add: main_step_def)
  have "abort_calls s' = []"
    using get_url_step_calls [OF s'] assms(1) GetURL by (simp add: inv_abort_def)
  then show ?thesis using get_url_step_pc [OF s']
    by (auto simp: inv_abort_def)
next
  case LoopHead
  then show ?thesis using assms by (auto simp: main_step_def inv_abort_def abort_calls_def split: if_splits)
next
  case CheckErr
  then show ?thesis using assms by (auto simp: main_step_def inv_abort_def abort_calls_def split: if_splits)
next
  case (Acquire url off len)
  then show ?thesis using assms by (auto simp: main_step_def inv_abort_def abort_calls_def split: if_splits)
next
  case WaitAll
  then show ?thesis using assms by (auto simp: main_step_def inv_abort_def abort_calls_def split: if_splits)
next
  case CheckCtx
  then show ?thesis using assms by (auto simp: main_step_def inv_abort_def abort_calls_def split: if_splits)
next
  case CheckUploadErr
  then show ?thesis using assms
    by (auto simp: main_step_def inv_abort_def abort_calls_def split: if_splits option.splits)
next
  case Complete
  then show ?thesis using assms
    by (auto simp: main_step_def inv_abort_def abort_calls_def Let_def split: if_splits option.splits)
next
  case ComputeCRC
  then show ?thesis using assms
    by (auto simp: main_step_def inv_abort_def abort_calls_def split: sum.splits)
next
  case (Deferred out)
  then show ?thesis using assms
    by (auto simp: main_step_def inv_abort_def abort_calls_def split: if_splits)
next
  case (Finished out)
  then show ?thesis using assms by (simp add: main_step_def)
qed

lemma step_inv_abort:
  assumes "inv_abort ir s" "step ir f env e s = Some s'"
  shows "inv_abort ir s'"
proof (cases e)
  case Cancel
  then have "s' = s\<lparr>cancelled := True\<rparr>" using step_unfold [OF assms(2)] assms(2) by simp
  then show ?thesis using inv_abort_frame [OF assms(1) step_not_finished [OF assms(2)], of s'] by simp
next
  case Main
  then show ?thesis using assms step_unfold [OF assms(2)] main_step_inv_abort [of ir s f env s'] by simp
next
  case (PartDone p)
  then have "part_done env p s = Some s'" using step_unfold [OF assms(2)] assms(2) by simp
  then show ?thesis
    using inv_abort_frame [OF assms(1) step_not_finished [OF assms(2)], of s']
      goroutine_event_frame [of env p s s'] by simp
next
  case (PartRelease p)
  then have "part_release p s = Some s'" using step_unfold [OF assms(2)] assms(2) by simp
  then show ?thesis
    using inv_abort_frame [OF assms(1) step_not_finished [OF assms(2)], of s']
      goroutine_event_frame [of env p s s'] by simp
next
  case (PartExit p)
  then have "part_exit p s = Some s'" using step_unfold [OF assms(2)] assms(2) by simp
  then show ?thesis
    using inv_abort_frame [OF assms(1) step_not_finished [OF assms(2)], of s']
      goroutine_event_frame [of env p s s'] by simp
qed

lemma init_inv_abort: "inv_abort ir (init_state ir)"
  by (simp add: inv_abort_def init_state_def abort_calls_def)

lemma min_go_min: "min_go a b = min a b"
  by (simp add: min_go_def min_def)

text \<open>
  The request for URLs of a part \<open>n\<close> from \<open>1\<close> to \<open>TotalParts\<close>, where
  \<open>TotalParts + partURLBatchSize\<close> fits an \<^verbatim>\<open>int\<close>.
\<close>

lemma batch_numbers:
  assumes "TotalParts ir + partURLBatchSize < 2 ^ 63" "1 \<le> n" "n \<le> TotalParts ir"
  shows "generatePartNumbers n
           (min_go (int64 (int64 (n + partURLBatchSize) - 1)) (TotalParts ir))
         = Some (Inr [n..min (n + partURLBatchSize - 1) (TotalParts ir)])"
proof -
  have a: "int64 (n + partURLBatchSize) = n + partURLBatchSize"
    using assms by (intro int64_id) (simp_all add: partURLBatchSize_def)
  have b: "int64 (n + partURLBatchSize - 1) = n + partURLBatchSize - 1"
    using assms by (intro int64_id) (simp_all add: partURLBatchSize_def)
  let ?e = "min (n + partURLBatchSize - 1) (TotalParts ir)"
  have "?e - n + 1 \<le> 50" by (simp add: partURLBatchSize_def)
  then have cap: "8 * (?e - n + 1) \<le> maxAlloc" by (simp add: maxAlloc_def)
  have "n \<le> ?e" "- (2 ^ 63) \<le> n" "?e < 2 ^ 63 - 1"
    using assms by (simp_all add: partURLBatchSize_def)
  then have "generatePartNumbers n ?e = Some (Inr [n..?e])"
    using cap by (intro generatePartNumbers_range)
  then show ?thesis by (simp add: a b min_go_min)
qed

lemma get_url_step_returns:
  assumes "TotalParts ir + partURLBatchSize < 2 ^ 63" "1 \<le> partNum s"
    "partNum s \<le> TotalParts ir"
  shows "\<exists>s'. get_url_step ir f env s = Some s'"
  by (simp add: get_url_step_def Let_def batch_numbers [OF assms]
      split: option.splits sum.splits)

lemma get_url_step_inv_urls:
  assumes "TotalParts ir + partURLBatchSize < 2 ^ 63"
    "inv_urls ir s" "1 \<le> partNum s" "partNum s \<le> TotalParts ir"
    "get_url_step ir f env s = Some s'"
  shows "inv_urls ir s'"
proof -
  let ?n = "partNum s"
  let ?e = "min (?n + partURLBatchSize - 1) (TotalParts ir)"
  note g = batch_numbers [OF assms(1,3,4)]
  have ok: "urls_request_ok ir (GetPartURLs CallerCtx (UploadID ir) [?n..?e])"
    using assms(3,4) by (auto simp: urls_request_ok_def)
  show ?thesis using assms(2,5) ok
    by (auto simp: get_url_step_def Let_def g inv_urls_def merge_urls_def
        split: option.splits sum.splits if_splits)
qed

lemma main_step_inv_urls:
  assumes "inv_urls ir s" "inv_parts s" "inv_ctl ir s" "main_step ir f env s = Some s'"
    and rng: "TotalParts ir + partURLBatchSize < 2 ^ 63"
  shows "inv_urls ir s'"
proof (cases "pc s")
  case GetURL
  then have s': "get_url_step ir f env s = Some s'" using assms(4) by (simp add: main_step_def)
  have "1 \<le> partNum s" using assms(2) by (simp add: inv_parts_def)
  moreover have "partNum s \<le> TotalParts ir" using assms(3) GetURL by (simp add: inv_ctl_def)
  ultimately show ?thesis using get_url_step_inv_urls [OF rng assms(1) _ _ s'] by simp
next
  case LoopHead
  then show ?thesis using assms(1,4) by (auto simp: main_step_def inv_urls_def split: if_splits)
next
  case CheckErr
  then show ?thesis using assms(1,4) by (auto simp: main_step_def inv_urls_def split: if_splits)
next
  case (Acquire url off len)
  then show ?thesis using assms(1,4) by (auto simp: main_step_def inv_urls_def split: if_splits)
next
  case WaitAll
  then show ?thesis using assms(1,4) by (auto simp: main_step_def inv_urls_def split: if_splits)
next
  case CheckCtx
  then show ?thesis using assms(1,4) by (auto simp: main_step_def inv_urls_def split: if_splits)
next
  case CheckUploadErr
  then show ?thesis using assms(1,4)
    by (auto simp: main_step_def inv_urls_def split: if_splits option.splits)
next
  case Complete
  then show ?thesis using assms(1,4)
    by (auto simp: main_step_def inv_urls_def urls_request_ok_def Let_def split: if_splits option.splits)
next
  case ComputeCRC
  then show ?thesis using assms(1,4)
    by (auto simp: main_step_def inv_urls_def split: sum.splits)
next
  case (Deferred out)
  then show ?thesis using assms(1,4)
    by (auto simp: main_step_def inv_urls_def urls_request_ok_def split: if_splits)
next
  case (Finished out)
  then show ?thesis using assms by (simp add: main_step_def)
qed

lemma inv_urls_frame:
  "inv_urls ir s \<Longrightarrow> pc s' = pc s \<Longrightarrow> calls s' = calls s \<Longrightarrow> inv_urls ir s'"
  by (simp add: inv_urls_def)

lemma step_inv_urls:
  assumes "inv_urls ir s" "inv_parts s" "inv_ctl ir s" "step ir f env e s = Some s'"
    and rng: "TotalParts ir + partURLBatchSize < 2 ^ 63"
  shows "inv_urls ir s'"
proof (cases e)
  case Cancel
  then have "s' = s\<lparr>cancelled := True\<rparr>" using step_unfold [OF assms(4)] assms(4) by simp
  then show ?thesis using inv_urls_frame [OF assms(1), of s'] by simp
next
  case Main
  then show ?thesis
    using assms(1-4) step_unfold [OF assms(4)] main_step_inv_urls [of ir s f env s', OF _ _ _ _ rng]
    by simp
next
  case (PartDone p)
  then have "part_done env p s = Some s'" using step_unfold [OF assms(4)] assms(4) by simp
  then show ?thesis
    using inv_urls_frame [OF assms(1), of s'] goroutine_event_frame [of env p s s'] by simp
next
  case (PartRelease p)
  then have "part_release p s = Some s'" using step_unfold [OF assms(4)] assms(4) by simp
  then show ?thesis
    using inv_urls_frame [OF assms(1), of s'] goroutine_event_frame [of env p s s'] by simp
next
  case (PartExit p)
  then have "part_exit p s = Some s'" using step_unfold [OF assms(4)] assms(4) by simp
  then show ?thesis
    using inv_urls_frame [OF assms(1), of s'] goroutine_event_frame [of env p s s'] by simp
qed

lemma init_inv_urls: "inv_urls ir (init_state ir)"
  by (simp add: inv_urls_def init_state_def)

text \<open>All invariants hold in every state that a schedule reaches.\<close>

lemma exec_invs:
  "exec ir f env sched s = Some s' \<Longrightarrow>
   inv_parts s \<and> inv_ctl ir s \<and> inv_abort ir s \<Longrightarrow>
   inv_parts s' \<and> inv_ctl ir s' \<and> inv_abort ir s'"
proof (induction sched arbitrary: s)
  case Nil
  then show ?case by simp
next
  case (Cons e es)
  then obtain s1 where s1: "step ir f env e s = Some s1" "exec ir f env es s1 = Some s'"
    by (auto split: option.splits)
  have "inv_parts s1 \<and> inv_ctl ir s1 \<and> inv_abort ir s1"
    using Cons.prems(2) step_inv_parts [OF _ s1(1)] step_inv_ctl [OF _ s1(1)]
      step_inv_abort [OF _ s1(1)] by simp
  then show ?case using Cons.IH [OF s1(2)] by simp
qed

lemma reachable_invs:
  assumes "uploadMultipart ir f env sched = Some s"
  shows "inv_parts s" "inv_ctl ir s" "inv_abort ir s"
  using exec_invs [of ir f env sched "init_state ir" s] assms
    init_inv_parts init_inv_ctl init_inv_abort
  by (simp_all add: uploadMultipart_def)

text \<open>
  The requests for URLs, where \<open>TotalParts + partURLBatchSize\<close> fits an
  \<^verbatim>\<open>int\<close>.
\<close>

lemma exec_inv_urls:
  assumes rng: "TotalParts ir + partURLBatchSize < 2 ^ 63"
  shows "exec ir f env sched s = Some s' \<Longrightarrow>
   inv_parts s \<and> inv_ctl ir s \<and> inv_abort ir s \<Longrightarrow> inv_urls ir s \<Longrightarrow> inv_urls ir s'"
proof (induction sched arbitrary: s)
  case Nil
  then show ?case by simp
next
  case (Cons e es)
  then obtain s1 where s1: "step ir f env e s = Some s1" "exec ir f env es s1 = Some s'"
    by (auto split: option.splits)
  have i: "inv_parts s1 \<and> inv_ctl ir s1 \<and> inv_abort ir s1"
    using exec_invs [of ir f env "[e]" s s1] s1(1) Cons.prems(2) by simp
  have "inv_urls ir s1"
    using step_inv_urls [OF Cons.prems(3) _ _ s1(1) rng] Cons.prems(2) by simp
  then show ?case using Cons.IH [OF s1(2) i] by simp
qed

lemma reachable_inv_urls:
  assumes "TotalParts ir + partURLBatchSize < 2 ^ 63"
    and "uploadMultipart ir f env sched = Some s"
  shows "inv_urls ir s"
  using exec_inv_urls [OF assms(1), of f env sched "init_state ir" s] assms(2)
    init_inv_parts init_inv_ctl init_inv_abort init_inv_urls
  by (simp add: uploadMultipart_def)

lemma step_completion_order:
  "step ir f env e s = Some s' \<Longrightarrow>
   part_numbers (parts s') = part_numbers (parts s) @ completion_order env [e]"
proof (cases e)
  case Main
  assume a: "step ir f env e s = Some s'"
  then have m: "main_step ir f env s = Some s'" using step_unfold [OF a] Main by simp
  show ?thesis
  proof (cases "\<exists>url off len. pc s = Acquire url off len")
    case True
    then show ?thesis using m Main
      by (auto simp: main_step_def completion_order_def split: if_splits)
  next
    case False
    then show ?thesis using main_step_frame [OF m] Main by (simp add: completion_order_def)
  qed
qed (auto simp: step_def completion_order_def part_done_def part_release_def part_exit_def
      part_numbers_def split: mp_pc.splits if_splits sum.splits)

lemma exec_completion_order:
  "exec ir f env sched s = Some s' \<Longrightarrow>
   part_numbers (parts s') = part_numbers (parts s) @ completion_order env sched"
proof (induction sched arbitrary: s)
  case Nil
  then show ?case by (simp add: completion_order_def)
next
  case (Cons e es)
  then obtain s1 where s1: "step ir f env e s = Some s1" "exec ir f env es s1 = Some s'"
    by (auto split: option.splits)
  have "completion_order env (e # es) = completion_order env [e] @ completion_order env es"
    by (simp add: completion_order_def)
  then show ?case using Cons.IH [OF s1(2)] step_completion_order [OF s1(1)] by simp
qed


lemma generatePartNumbers_Inl:
  "generatePartNumbers a b = Some (Inl m) \<Longrightarrow> m = ''runtime error: makeslice: cap out of range''"
  by (auto simp add: generatePartNumbers_def Let_def split: if_splits)

lemma main_step_inv_panic:
  assumes "inv_panic ir s" "main_step ir f env s = Some s'" "inv_urls ir s'"
  shows "inv_panic ir s'"
proof (cases "pc s")
  case GetURL
  then have s': "get_url_step ir f env s = Some s'" using assms(2) by (simp add: main_step_def)
  show ?thesis using assms(1,3) s'
    by (auto simp: inv_panic_def inv_urls_def get_url_step_def Let_def merge_urls_def
        dest!: generatePartNumbers_Inl split: option.splits sum.splits if_splits)
next
  case LoopHead
  then show ?thesis using assms(1,2) by (auto simp: main_step_def inv_panic_def split: if_splits)
next
  case CheckErr
  then show ?thesis using assms(1,2) by (auto simp: main_step_def inv_panic_def split: if_splits)
next
  case (Acquire url off len)
  then show ?thesis using assms(1,2) by (auto simp: main_step_def inv_panic_def split: if_splits)
next
  case WaitAll
  then show ?thesis using assms(1,2) by (auto simp: main_step_def inv_panic_def split: if_splits)
next
  case CheckCtx
  then show ?thesis using assms(1,2) by (auto simp: main_step_def inv_panic_def split: if_splits)
next
  case CheckUploadErr
  then show ?thesis using assms(1,2)
    by (auto simp: main_step_def inv_panic_def split: if_splits option.splits)
next
  case Complete
  then show ?thesis using assms(1,2)
    by (auto simp: main_step_def inv_panic_def Let_def split: if_splits option.splits)
next
  case ComputeCRC
  then show ?thesis using assms(1,2)
    by (auto simp: main_step_def inv_panic_def split: sum.splits)
next
  case (Deferred out)
  then show ?thesis using assms(1,2)
    by (auto simp: main_step_def inv_panic_def split: if_splits)
next
  case (Finished out)
  then show ?thesis using assms by (simp add: main_step_def)
qed

lemma goroutine_event_urls:
  "part_done env p s = Some s' \<or> part_release p s = Some s' \<or> part_exit p s = Some s' \<Longrightarrow>
   urls s' = urls s"
  by (auto simp: part_done_def part_release_def part_exit_def split: if_splits sum.splits)

lemma inv_panic_frame:
  "inv_panic ir s \<Longrightarrow> pc s' = pc s \<Longrightarrow> urls s' = urls s \<Longrightarrow> inv_panic ir s'"
  by (simp add: inv_panic_def)

lemma step_inv_panic:
  assumes "inv_panic ir s" "step ir f env e s = Some s'" "inv_urls ir s'"
  shows "inv_panic ir s'"
proof (cases e)
  case Cancel
  then have "s' = s\<lparr>cancelled := True\<rparr>" using step_unfold [OF assms(2)] assms(2) by simp
  then show ?thesis using inv_panic_frame [OF assms(1), of s'] by simp
next
  case Main
  then show ?thesis using assms step_unfold [OF assms(2)] main_step_inv_panic [of ir s f env s'] by simp
next
  case (PartDone p)
  then have "part_done env p s = Some s'" using step_unfold [OF assms(2)] assms(2) by simp
  then show ?thesis
    using inv_panic_frame [OF assms(1), of s'] goroutine_event_frame [of env p s s']
      goroutine_event_urls [of env p s s'] by simp
next
  case (PartRelease p)
  then have "part_release p s = Some s'" using step_unfold [OF assms(2)] assms(2) by simp
  then show ?thesis
    using inv_panic_frame [OF assms(1), of s'] goroutine_event_frame [of env p s s']
      goroutine_event_urls [of env p s s'] by simp
next
  case (PartExit p)
  then have "part_exit p s = Some s'" using step_unfold [OF assms(2)] assms(2) by simp
  then show ?thesis
    using inv_panic_frame [OF assms(1), of s'] goroutine_event_frame [of env p s s']
      goroutine_event_urls [of env p s s'] by simp
qed

lemma exec_inv_panic:
  assumes rng: "TotalParts ir + partURLBatchSize < 2 ^ 63"
  shows "exec ir f env sched s = Some s' \<Longrightarrow>
   inv_parts s \<and> inv_ctl ir s \<and> inv_abort ir s \<Longrightarrow> inv_urls ir s \<Longrightarrow> inv_panic ir s \<Longrightarrow>
   inv_panic ir s'"
proof (induction sched arbitrary: s)
  case Nil
  then show ?case by simp
next
  case (Cons e es)
  then obtain s1 where s1: "step ir f env e s = Some s1" "exec ir f env es s1 = Some s'"
    by (auto split: option.splits)
  have i: "inv_parts s1 \<and> inv_ctl ir s1 \<and> inv_abort ir s1"
    using exec_invs [of ir f env "[e]" s s1] s1(1) Cons.prems(2) by simp
  have u: "inv_urls ir s1"
    using exec_inv_urls [OF rng, of f env "[e]" s s1] s1(1) Cons.prems(2,3) by simp
  have "inv_panic ir s1" using step_inv_panic [OF Cons.prems(4) s1(1) u] .
  then show ?case using Cons.IH [OF s1(2) i u] by simp
qed

lemma reachable_inv_panic:
  assumes "TotalParts ir + partURLBatchSize < 2 ^ 63"
    and "uploadMultipart ir f env sched = Some s"
  shows "inv_panic ir s"
proof -
  have "inv_panic ir (init_state ir)" by (simp add: inv_panic_def init_state_def)
  then show ?thesis
    using exec_inv_panic [OF assms(1), of f env sched "init_state ir" s] assms(2)
      init_inv_parts init_inv_ctl init_inv_abort init_inv_urls
    by (simp add: uploadMultipart_def)
qed

text \<open>What the finalize call is given.\<close>

lemma finalized_parts:
  assumes "inv_parts s" "inv_ctl ir s" "finalized ir s"
  shows "set (part_numbers (parts s)) = {1..TotalParts ir}" "distinct (part_numbers (parts s))"
proof -
  have g: "goroutines s = []" and t: "TotalParts ir < partNum s" and e: "uploadErr s = None"
    using assms(3) by (simp_all add: finalized_def)
  have r: "partNum s \<le> TotalParts ir + 1 \<or> partNum s = 1" using assms(2) by (simp add: inv_ctl_def)
  have one: "1 \<le> partNum s" using assms(1) by (simp add: inv_parts_def)
  have eq: "{1..<partNum s} = {1..TotalParts ir}" using r t one by auto
  have sub: "set (part_numbers (parts s)) \<subseteq> {1..<partNum s}"
    using assms(1) by (simp add: inv_parts_def)
  have "\<forall>p\<in>{1..<partNum s}. stage_of (goroutines s) p = Some Uploading
            \<or> p \<in> set (part_numbers (parts s)) \<or> uploadErr s \<noteq> None"
    using assms(1) by (simp add: inv_parts_def)
  then have sup: "{1..<partNum s} \<subseteq> set (part_numbers (parts s))"
    using g e by (auto simp: stage_of_def)
  show "set (part_numbers (parts s)) = {1..TotalParts ir}" using sub sup eq by auto
  show "distinct (part_numbers (parts s))" using assms(1) by (simp add: inv_parts_def)
qed

lemma complete_calls_cases:
  assumes "inv_ctl ir s"
  shows "complete_calls s = [] \<or> finalized ir s"
  using assms by (cases "pc s") (auto simp: inv_ctl_def split: outcome.splits sum.splits)

lemma success_finalized:
  assumes "inv_ctl ir s" "pc s = Finished (Return (Inr c))"
  shows "finalized ir s"
  using assms by (simp add: inv_ctl_def)

lemma rank_set_stage:
  "distinct (map pNum gs) \<Longrightarrow> stage_of gs p = Some st0 \<Longrightarrow> stage_rank st < stage_rank st0 \<Longrightarrow>
   sum_list (map (\<lambda>g. stage_rank (g_stage g)) (set_stage p st gs))
     < sum_list (map (\<lambda>g. stage_rank (g_stage g)) gs)"
proof (induction gs)
  case Nil
  then show ?case by (simp add: stage_of_def)
next
  case (Cons g gs)
  show ?case
  proof (cases "pNum g = p")
    case True
    then have "p \<notin> set (map pNum gs)" using Cons.prems(1) by auto
    then have same: "set_stage p st gs = gs" by (induction gs) (auto simp: set_stage_def)
    have "g_stage g = st0" using Cons.prems(2) True by (simp add: stage_of_def)
    then show ?thesis using True same Cons.prems(3) by (simp add: set_stage_def)
  next
    case False
    then have "stage_of gs p = Some st0" using Cons.prems(2) by (simp add: stage_of_def)
    then have "sum_list (map (\<lambda>g. stage_rank (g_stage g)) (set_stage p st gs))
        < sum_list (map (\<lambda>g. stage_rank (g_stage g)) gs)"
      using Cons.IH Cons.prems(1,3) by simp
    then show ?thesis using False by (simp add: set_stage_def)
  qed
qed

lemma rank_filter:
  "stage_of gs p = Some st0 \<Longrightarrow>
   sum_list (map (\<lambda>g. stage_rank (g_stage g)) (filter (\<lambda>g. pNum g \<noteq> p) gs))
     < sum_list (map (\<lambda>g. stage_rank (g_stage g)) gs)"
proof (induction gs)
  case Nil
  then show ?case by (simp add: stage_of_def)
next
  case (Cons g gs)
  have le: "sum_list (map (\<lambda>g. stage_rank (g_stage g)) (filter (\<lambda>g. pNum g \<noteq> p) gs))
     \<le> sum_list (map (\<lambda>g. stage_rank (g_stage g)) gs)"
    by (induction gs) auto
  have pos: "0 < stage_rank (g_stage g)" by (simp add: stage_rank_def split: stage.splits)
  show ?case
  proof (cases "pNum g = p")
    case True
    then show ?thesis using le pos by simp
  next
    case False
    then have "stage_of gs p = Some st0" using Cons.prems by (simp add: stage_of_def)
    then show ?thesis using Cons.IH False by simp
  qed
qed

lemma goroutine_progress:
  assumes "inv_parts s" "g \<in> set (goroutines s)" "\<forall>out. pc s \<noteq> Finished out"
  shows "\<exists>e s'. e \<noteq> Cancel \<and> step ir f env e s = Some s' \<and> steps_left ir s' < steps_left ir s"
proof -
  have d: "distinct (map pNum (goroutines s))" using assms(1) by (simp add: inv_parts_def)
  have st: "stage_of (goroutines s) (pNum g) = Some (g_stage g)"
    using d assms(2) by (rule stage_of_distinct)
  have nf: "\<And>e. step ir f env e s =
      (case e of Cancel \<Rightarrow> Some (s\<lparr>cancelled := True\<rparr>) | Main \<Rightarrow> main_step ir f env s
       | PartDone p \<Rightarrow> part_done env p s | PartRelease p \<Rightarrow> part_release p s
       | PartExit p \<Rightarrow> part_exit p s)"
    using assms(3) by (cases "pc s") (simp_all add: step_def)
  show ?thesis
  proof (cases "g_stage g")
    case Uploading
    then obtain s' where s': "part_done env (pNum g) s = Some s'"
      using st by (simp add: part_done_def)
    have fr: "partNum s' = partNum s" "pc s' = pc s"
      "goroutines s' = set_stage (pNum g) Recorded (goroutines s)"
      using s' st Uploading by (auto simp: part_done_def split: sum.splits)
    have "steps_left ir s' < steps_left ir s"
      using rank_set_stage [OF d st, of Recorded] Uploading
      by (simp add: steps_left_def fr stage_rank_def)
    then show ?thesis using s' nf [of "PartDone (pNum g)"] by (intro exI [of _ "PartDone (pNum g)"]) auto
  next
    case Recorded
    then obtain s' where s': "part_release (pNum g) s = Some s'"
      using st by (simp add: part_release_def)
    have fr: "partNum s' = partNum s" "pc s' = pc s"
      "goroutines s' = set_stage (pNum g) Released (goroutines s)"
      using s' st Recorded by (auto simp: part_release_def)
    have "steps_left ir s' < steps_left ir s"
      using rank_set_stage [OF d st, of Released] Recorded
      by (simp add: steps_left_def fr stage_rank_def)
    then show ?thesis using s' nf [of "PartRelease (pNum g)"]
      by (intro exI [of _ "PartRelease (pNum g)"]) auto
  next
    case Released
    then obtain s' where s': "part_exit (pNum g) s = Some s'"
      using st by (simp add: part_exit_def)
    have fr: "partNum s' = partNum s" "pc s' = pc s"
      "goroutines s' = filter (\<lambda>h. pNum h \<noteq> pNum g) (goroutines s)"
      using s' st Released by (auto simp: part_exit_def)
    have "steps_left ir s' < steps_left ir s"
      using rank_filter [OF st] by (simp add: steps_left_def fr)
    then show ?thesis using s' nf [of "PartExit (pNum g)"]
      by (intro exI [of _ "PartExit (pNum g)"]) auto
  qed
qed

lemma main_progress:
  assumes "main_step ir f env s = Some s'" "\<forall>out. pc s \<noteq> Finished out"
    "\<forall>url off len. pc s = Acquire url off len \<longrightarrow> partNum s \<le> TotalParts ir"
  shows "steps_left ir s' < steps_left ir s"
proof (cases "pc s")
  case GetURL
  then have s': "get_url_step ir f env s = Some s'" using assms(1) by (simp add: main_step_def)
  have "pc_rank (pc s') < 9"
    using get_url_step_pc [OF s'] by (auto simp: pc_rank_def)
  then show ?thesis using get_url_step_frame [OF s'] GetURL
    by (simp add: steps_left_def pc_rank_def)
next
  case (Acquire url off len)
  then have "partNum s \<le> TotalParts ir" using assms(3) by simp
  then have "nat (TotalParts ir + 1 - partNum s) = Suc (nat (TotalParts ir + 1 - (partNum s + 1)))"
    by simp
  then show ?thesis using assms(1) Acquire
    by (auto simp: main_step_def steps_left_def pc_rank_def stage_rank_def split: if_splits)
next
  case LoopHead
  then show ?thesis using assms(1) by (auto simp: main_step_def steps_left_def pc_rank_def split: if_splits)
next
  case CheckErr
  then show ?thesis using assms(1) by (auto simp: main_step_def steps_left_def pc_rank_def split: if_splits)
next
  case WaitAll
  then show ?thesis using assms(1) by (auto simp: main_step_def steps_left_def pc_rank_def split: if_splits)
next
  case CheckCtx
  then show ?thesis using assms(1) by (auto simp: main_step_def steps_left_def pc_rank_def split: if_splits)
next
  case CheckUploadErr
  then show ?thesis using assms(1)
    by (auto simp: main_step_def steps_left_def pc_rank_def split: if_splits option.splits)
next
  case Complete
  then show ?thesis using assms(1)
    by (auto simp: main_step_def steps_left_def pc_rank_def Let_def split: if_splits option.splits)
next
  case ComputeCRC
  then show ?thesis using assms(1)
    by (auto simp: main_step_def steps_left_def pc_rank_def split: sum.splits)
next
  case (Deferred out)
  then show ?thesis using assms(1)
    by (auto simp: main_step_def steps_left_def pc_rank_def split: if_splits)
next
  case (Finished out)
  then show ?thesis using assms by simp
qed

lemma progress:
  assumes "inv_parts s" "inv_ctl ir s" "\<forall>out. pc s \<noteq> Finished out"
    and rng: "TotalParts ir + partURLBatchSize < 2 ^ 63"
  shows "\<exists>e s'. e \<noteq> Cancel \<and> step ir f env e s = Some s' \<and> steps_left ir s' < steps_left ir s"
proof -
  have acq: "\<forall>url off len. pc s = Acquire url off len \<longrightarrow> partNum s \<le> TotalParts ir"
    using assms(2) by (auto simp: inv_ctl_def)
  have nf: "step ir f env Main s = main_step ir f env s"
    using assms(3) by (cases "pc s") (simp_all add: step_def)
  show ?thesis
  proof (cases "main_step ir f env s")
    case (Some s')
    then show ?thesis using main_progress [OF Some assms(3) acq] nf
      by (intro exI [of _ Main]) auto
  next
    case None
    have "\<exists>g. g \<in> set (goroutines s)"
    proof (cases "pc s")
      case (Acquire url off len)
      then have "\<not> sem_held s < concurrentParts" using None by (auto simp: main_step_def split: if_splits)
      then have "filter (\<lambda>g. g_stage g \<noteq> Released) (goroutines s) \<noteq> []"
        by (auto simp: sem_held_def concurrentParts_def)
      then obtain g where "g \<in> set (filter (\<lambda>g. g_stage g \<noteq> Released) (goroutines s))"
        by (cases "filter (\<lambda>g. g_stage g \<noteq> Released) (goroutines s)") auto
      then show ?thesis by auto
    next
      case WaitAll
      then have "goroutines s \<noteq> []" using None by (auto simp: main_step_def split: if_splits)
      then show ?thesis by (cases "goroutines s") auto
    next
      case GetURL
      have "1 \<le> partNum s" using assms(1) by (simp add: inv_parts_def)
      moreover have "partNum s \<le> TotalParts ir" using assms(2) GetURL by (simp add: inv_ctl_def)
      ultimately have "\<exists>s'. get_url_step ir f env s = Some s'"
        using get_url_step_returns [OF rng] by simp
      then show ?thesis using None GetURL by (simp add: main_step_def)
    qed (use None assms(3) in \<open>auto simp: main_step_def split: if_splits\<close>)
    then obtain g where "g \<in> set (goroutines s)" by blast
    then show ?thesis using goroutine_progress [OF assms(1) _ assms(3)] by blast
  qed
qed

lemma exec_append:
  "exec ir f env (a @ b) s = (case exec ir f env a s of None \<Rightarrow> None | Some s1 \<Rightarrow> exec ir f env b s1)"
  by (induction a arbitrary: s) (auto split: option.splits)

lemma can_finish_from:
  assumes rng: "TotalParts ir + partURLBatchSize < 2 ^ 63"
  shows "inv_parts s \<and> inv_ctl ir s \<and> inv_abort ir s \<Longrightarrow>
   \<exists>sched s'. Cancel \<notin> set sched \<and> exec ir f env sched s = Some s' \<and> (\<exists>out. pc s' = Finished out)"
proof (induction "steps_left ir s" arbitrary: s rule: less_induct)
  case less
  show ?case
  proof (cases "\<exists>out. pc s = Finished out")
    case True
    then show ?thesis by (intro exI [of _ "[]"] exI [of _ s]) simp
  next
    case False
    then obtain e s1 where e: "e \<noteq> Cancel" "step ir f env e s = Some s1"
        "steps_left ir s1 < steps_left ir s"
      using progress [of s ir f env, OF _ _ _ rng] less.prems by auto
    have i: "inv_parts s1 \<and> inv_ctl ir s1 \<and> inv_abort ir s1"
      using exec_invs [of ir f env "[e]" s s1] e(2) less.prems by simp
    obtain sched s' where r: "Cancel \<notin> set sched" "exec ir f env sched s1 = Some s'"
        "\<exists>out. pc s' = Finished out"
      using less.hyps [OF e(3) i] by auto
    show ?thesis using e(1,2) r by (intro exI [of _ "e # sched"] exI [of _ s']) simp
  qed
qed

lemma can_finish:
  assumes "uploadMultipart ir f env sched = Some s"
    and rng: "TotalParts ir + partURLBatchSize < 2 ^ 63"
  shows "\<exists>more s'. Cancel \<notin> set more \<and> uploadMultipart ir f env (sched @ more) = Some s'
    \<and> (\<exists>out. pc s' = Finished out)"
proof -
  obtain more s' where r: "Cancel \<notin> set more" "exec ir f env more s = Some s'"
      "\<exists>out. pc s' = Finished out"
    using can_finish_from [OF rng, of s f env] reachable_invs [OF assms(1)] by auto
  have "uploadMultipart ir f env (sched @ more) = Some s'"
    using assms(1) r(2) by (simp add: uploadMultipart_def exec_append)
  then show ?thesis using r(1,3) by blast
qed

lemma step_cancelled:
  assumes "step ir f env e s = Some s'"
  shows "cancelled s' = (cancelled s \<or> e = Cancel)"
proof (cases e)
  case Cancel
  then show ?thesis using step_unfold [OF assms] assms by auto
next
  case Main
  then have m: "main_step ir f env s = Some s'" using step_unfold [OF assms] assms by simp
  show ?thesis
  proof (cases "\<exists>url off len. pc s = Acquire url off len")
    case True
    then show ?thesis using m Main by (auto simp: main_step_def split: if_splits)
  next
    case False
    then show ?thesis using main_step_frame [OF m] Main by simp
  qed
next
  case (PartDone p)
  then have "part_done env p s = Some s'" using step_unfold [OF assms] assms by simp
  then show ?thesis using goroutine_event_frame [of env p s s'] PartDone by simp
next
  case (PartRelease p)
  then have "part_release p s = Some s'" using step_unfold [OF assms] assms by simp
  then show ?thesis using goroutine_event_frame [of env p s s'] PartRelease by simp
next
  case (PartExit p)
  then have "part_exit p s = Some s'" using step_unfold [OF assms] assms by simp
  then show ?thesis using goroutine_event_frame [of env p s s'] PartExit by simp
qed

lemma exec_cancelled:
  "exec ir f env sched s = Some s' \<Longrightarrow> cancelled s' = (cancelled s \<or> Cancel \<in> set sched)"
proof (induction sched arbitrary: s)
  case Nil
  then show ?case by simp
next
  case (Cons e es)
  then obtain s1 where s1: "step ir f env e s = Some s1" "exec ir f env es s1 = Some s'"
    by (auto split: option.splits)
  show ?case using Cons.IH [OF s1(2)] step_cancelled [OF s1(1)] by auto
qed

lemma get_url_step_abort_reply:
  "get_url_step ir f (env\<lparr>AbortUpload_reply := r\<rparr>) s = get_url_step ir f env s"
  by (simp add: get_url_step_def Let_def split: option.splits sum.splits)

lemma main_step_abort_reply:
  "main_step ir f (env\<lparr>AbortUpload_reply := r\<rparr>) s = main_step ir f env s"
  by (simp add: main_step_def get_url_step_abort_reply Let_def split: mp_pc.splits sum.splits option.splits)

lemma part_done_abort_reply:
  "part_done (env\<lparr>AbortUpload_reply := r\<rparr>) p s = part_done env p s"
  by (simp add: part_done_def split: sum.splits)

lemma step_abort_reply:
  "step ir f (env\<lparr>AbortUpload_reply := r\<rparr>) e s = step ir f env e s"
  by (simp add: step_def main_step_abort_reply part_done_abort_reply split: mp_pc.splits event.splits)

lemma exec_abort_reply:
  "exec ir f (env\<lparr>AbortUpload_reply := r\<rparr>) sched s = exec ir f env sched s"
proof (induction sched arbitrary: s)
  case Nil
  then show ?case by simp
next
  case (Cons e es)
  show ?case by (simp add: step_abort_reply Cons.IH split: option.splits)
qed

lemma sorted_upto_unique:
  assumes "sorted xs" "distinct xs" "set xs = {i..j}"
  shows "xs = [i..j]"
  using assms by (intro sorted_distinct_set_unique) simp_all

text \<open>
  C1 (as amended). The code does not sort: the list of completed parts that the finalize
  call is given lists the parts in the order in which their uploads completed. It holds
  every part number from 1 to \<open>TotalParts\<close> exactly once, and it is ascending exactly
  when the uploads completed in ascending order of part number.
\<close>

theorem C1_finalize_order:
  assumes "uploadMultipart ir f env sched = Some s" and "ps \<in> set (complete_calls s)"
  shows "part_numbers ps = completion_order env sched
       \<and> distinct (part_numbers ps) \<and> set (part_numbers ps) = {1..TotalParts ir}
       \<and> (sorted (part_numbers ps) \<longleftrightarrow> completion_order env sched = [1..TotalParts ir])"
proof -
  have i: "inv_parts s" "inv_ctl ir s" using reachable_invs [OF assms(1)] by simp_all
  have fin: "finalized ir s" using complete_calls_cases [OF i(2)] assms(2) by auto
  then have ps: "ps = parts s" using assms(2) by (simp add: finalized_def)
  have o: "part_numbers (parts s) = completion_order env sched"
    using exec_completion_order [of ir f env sched "init_state ir" s] assms(1)
    by (simp add: uploadMultipart_def init_state_def part_numbers_def)
  have d: "distinct (part_numbers ps)" and st: "set (part_numbers ps) = {1..TotalParts ir}"
    using finalized_parts [OF i fin] ps by simp_all
  have "sorted (part_numbers ps) \<longleftrightarrow> part_numbers ps = [1..TotalParts ir]"
    using sorted_upto_unique [OF _ d st] by auto
  then show ?thesis using o d st ps by simp
qed

theorem C1_finalize_order_witness:
  "map_option (\<lambda>s. map part_numbers (complete_calls s))
      (uploadMultipart ex_response 15 ex_env sched_in_order)
     = Some [completion_order ex_env sched_in_order]
   \<and> completion_order ex_env sched_in_order = [1, 2]
   \<and> sorted [1, 2 :: int]"
proof -
  have a: "map_option (\<lambda>s. map part_numbers (complete_calls s))
      (uploadMultipart ex_response 15 ex_env sched_in_order) = Some [[1, 2]]"
    by code_simp
  then obtain s where s: "uploadMultipart ex_response 15 ex_env sched_in_order = Some s"
      "map part_numbers (complete_calls s) = [[1, 2]]"
    by auto
  then obtain ps where ps: "ps \<in> set (complete_calls s)" "part_numbers ps = [1, 2]"
    by (cases "complete_calls s") auto
  have "part_numbers ps = completion_order ex_env sched_in_order"
    using C1_finalize_order [OF s(1) ps(1)] by simp
  then have "completion_order ex_env sched_in_order = [1, 2]" using ps(2) by simp
  then show ?thesis using a by simp
qed

text \<open>
  The claim as it was stated fails on a run in which part 2 completes before part 1:
  the finalize call is given the parts 2, 1.
\<close>

theorem C1_sorted_counterexample:
  "map_option (\<lambda>s. map part_numbers (complete_calls s))
      (uploadMultipart ex_response 15 ex_env sched_reversed) = Some [[2, 1]]
   \<and> \<not> sorted [2, 1 :: int]"
proof -
  have "map_option (\<lambda>s. map part_numbers (complete_calls s))
      (uploadMultipart ex_response 15 ex_env sched_reversed) = Some [[2, 1]]"
    by code_simp
  then show ?thesis by simp
qed

text \<open>
  The finalize call is made only with the part numbers from 1 to \<open>TotalParts\<close>, each
  once. While a part is missing no finalize call has been made and the function has not
  ended in success.
\<close>

lemma finalize_only_when_complete:
  assumes "uploadMultipart ir f env sched = Some s"
  shows "(\<forall>ps\<in>set (complete_calls s).
            set (part_numbers ps) = {1..TotalParts ir} \<and> distinct (part_numbers ps))
       \<and> (set (part_numbers (parts s)) \<noteq> {1..TotalParts ir} \<longrightarrow> complete_calls s = [])
       \<and> (\<forall>c. set (part_numbers (parts s)) \<noteq> {1..TotalParts ir} \<longrightarrow>
               pc s \<noteq> Finished (Return (Inr c)))"
proof -
  have i: "inv_parts s" "inv_ctl ir s" using reachable_invs [OF assms] by simp_all
  have c: "complete_calls s = [] \<or> finalized ir s" using complete_calls_cases [OF i(2)] .
  show ?thesis
  proof (cases "finalized ir s")
    case True
    have st: "set (part_numbers (parts s)) = {1..TotalParts ir}"
      and d: "distinct (part_numbers (parts s))"
      using finalized_parts [OF i True] by simp_all
    have cc: "complete_calls s = [parts s]" using True by (simp add: finalized_def)
    have a1: "\<forall>ps\<in>set (complete_calls s).
            set (part_numbers ps) = {1..TotalParts ir} \<and> distinct (part_numbers ps)"
      unfolding cc using st d by simp
    then show ?thesis using st by simp
  next
    case False
    then have cc: "complete_calls s = []" using c by simp
    have "pc s \<noteq> Finished (Return (Inr c))" for c
      using success_finalized [OF i(2), of c] False by blast
    then show ?thesis using cc by simp
  qed
qed

text \<open>
  A run that has ended with a part missing has returned an error, or it has panicked, and
  the only panic is the write to the map of URLs when the negotiation response came
  without the field \<^verbatim>\<open>initial_urls\<close>; this is for
  \<open>TotalParts + partURLBatchSize\<close> below \<open>2 ^ 63\<close>.
\<close>

lemma failure_without_finalize:
  assumes "uploadMultipart ir f env sched = Some s"
    and rng: "TotalParts ir + partURLBatchSize < 2 ^ 63"
    and fin: "pc s = Finished out"
    and missing: "set (part_numbers (parts s)) \<noteq> {1..TotalParts ir}"
  shows "(\<exists>e. out = Return (Inl e))
       \<or> (out = Panic ''assignment to entry in nil map'' \<and> InitialURLs ir = None)"
proof (cases out)
  case (Return r)
  show ?thesis
  proof (cases r)
    case (Inl e)
    then show ?thesis using Return by simp
  next
    case (Inr crc)
    then show ?thesis
      using finalize_only_when_complete [OF assms(1)] missing fin Return by blast
  qed
next
  case (Panic m)
  have "\<forall>m. pc s = Deferred (Panic m) \<or> pc s = Finished (Panic m) \<longrightarrow>
      m = ''assignment to entry in nil map'' \<and> InitialURLs ir = None"
    using reachable_inv_panic [OF rng assms(1)] by (simp add: inv_panic_def)
  then have "m = ''assignment to entry in nil map'' \<and> InitialURLs ir = None"
    using fin Panic by blast
  then show ?thesis using Panic by simp
qed

text \<open>
  C2. The finalize call is made only with the part numbers from 1 to \<open>TotalParts\<close>
  (\<open>finalize_only_when_complete\<close>), but a transfer with parts missing does not always
  return an error. When the negotiation response has no field \<^verbatim>\<open>initial_urls\<close>, the
  map of URLs is nil; the first part finds no URL, the URLs are requested, and writing
  the reply into the nil map panics: the function does not return an error, with no part
  uploaded and no finalize call made.
\<close>

theorem C2_nil_map_panic:
  "map_option (\<lambda>s. (pc s, part_numbers (parts s), calls s))
      (uploadMultipart ex_response_nil_urls 15 ex_env [Main, Main, Main, Main])
     = Some (Finished (Panic ''assignment to entry in nil map''), [],
             [GetPartURLs CallerCtx ''up1'' [1, 2]])"
  by code_simp

text \<open>
  C7 (as amended). The deferred function aborts the session exactly when the caller's
  context has been cancelled by the time the function ends and the session identifier is
  not empty: then the abort call is the one abort call of the run and its last call,
  made with a context of its own (background, 10 seconds) and not the caller's. When the
  context has not been cancelled, whatever made the function fail, no abort call is
  made. The reply to the abort is never read, so it changes nothing in the run.
\<close>

theorem C7_abort_when_cancelled:
  assumes "uploadMultipart ir f env sched = Some s"
  shows "cancelled s = (Cancel \<in> set sched)
       \<and> (\<forall>out. pc s = Finished out \<longrightarrow>
             abort_calls s = (if Cancel \<in> set sched \<and> UploadID ir \<noteq> []
                              then [AbortUpload (BackgroundTimeout 10) (UploadID ir)] else []))
       \<and> (\<forall>out. pc s = Finished out \<and> Cancel \<in> set sched \<and> UploadID ir \<noteq> [] \<longrightarrow>
             last (calls s) = AbortUpload (BackgroundTimeout 10) (UploadID ir))
       \<and> ((\<forall>out. pc s \<noteq> Finished out) \<longrightarrow> abort_calls s = [])
       \<and> (\<forall>r. uploadMultipart ir f (env\<lparr>AbortUpload_reply := r\<rparr>) sched = Some s)"
proof -
  have i: "inv_abort ir s" using reachable_invs [OF assms] by simp
  have c: "cancelled s = (Cancel \<in> set sched)"
    using exec_cancelled [of ir f env sched "init_state ir" s] assms
    by (simp add: uploadMultipart_def init_state_def)
  have a1: "\<forall>out. pc s = Finished out \<longrightarrow>
             abort_calls s = (if Cancel \<in> set sched \<and> UploadID ir \<noteq> []
                              then [AbortUpload (BackgroundTimeout 10) (UploadID ir)] else [])"
    using i c by (auto simp: inv_abort_def split: if_splits)
  have a2: "\<forall>out. pc s = Finished out \<and> Cancel \<in> set sched \<and> UploadID ir \<noteq> [] \<longrightarrow>
             last (calls s) = AbortUpload (BackgroundTimeout 10) (UploadID ir)"
    using i c by (auto simp: inv_abort_def split: if_splits)
  have a3: "(\<forall>out. pc s \<noteq> Finished out) \<longrightarrow> abort_calls s = []"
    using i by (cases "pc s") (auto simp: inv_abort_def)
  have a4: "\<forall>r. uploadMultipart ir f (env\<lparr>AbortUpload_reply := r\<rparr>) sched = Some s"
    using assms by (simp add: uploadMultipart_def exec_abort_reply)
  show ?thesis using c a1 a2 a3 a4 by blast
qed

theorem C7_abort_when_cancelled_witness:
  "map_option (\<lambda>s. (pc s, calls s)) (uploadMultipart ex_response 15 ex_env sched_cancelled)
     = Some (Finished (Return (Inl (Errorf ''upload cancelled''))),
             [AbortUpload (BackgroundTimeout 10) ''up1''])
   \<and> map_option (\<lambda>s. (pc s, calls s))
       (uploadMultipart ex_response 15 (ex_env\<lparr>AbortUpload_reply := Some (Errorf ''HTTP 500'')\<rparr>)
          sched_cancelled)
     = Some (Finished (Return (Inl (Errorf ''upload cancelled''))),
             [AbortUpload (BackgroundTimeout 10) ''up1''])"
proof -
  have a: "map_option (\<lambda>s. (pc s, calls s)) (uploadMultipart ex_response 15 ex_env sched_cancelled)
     = Some (Finished (Return (Inl (Errorf ''upload cancelled''))),
             [AbortUpload (BackgroundTimeout 10) ''up1''])"
    by code_simp
  then obtain s where s: "uploadMultipart ex_response 15 ex_env sched_cancelled = Some s"
      "pc s = Finished (Return (Inl (Errorf ''upload cancelled'')))"
      "calls s = [AbortUpload (BackgroundTimeout 10) ''up1'']"
    by auto
  have "uploadMultipart ex_response 15 (ex_env\<lparr>AbortUpload_reply := Some (Errorf ''HTTP 500'')\<rparr>)
          sched_cancelled = Some s"
    using C7_abort_when_cancelled [OF s(1)] by blast
  then show ?thesis using a s by simp
qed

text \<open>
  The claim as it was stated fails on a run in which a part exhausts its retries and the
  context is not cancelled: the session is open, the function returns the part's error,
  and no abort call is made.
\<close>

theorem C7_no_abort_counterexample:
  "map_option (\<lambda>s. (pc s, abort_calls s))
      (uploadMultipart ex_response 15 ex_env_fails sched_part_fails)
     = Some (Finished (Return (Inl (Wrapf ''part 1 failed'' (Errorf ''HTTP 500'')))), [])
   \<and> UploadID ex_response = ''up1''"
  by code_simp

text \<open>
  C10 (as amended). For \<^verbatim>\<open>int\<close> values \<open>start\<close> and \<open>end\<close> (64 bits):
  generatePartNumbers returns the numbers from \<open>start\<close> to \<open>end\<close>, of which there are
  \<open>end - start + 1\<close>, when \<open>start \<le> end\<close>, \<open>end\<close> is not the largest
  \<^verbatim>\<open>int\<close> and the capacity \<open>end - start + 1\<close> is within what the runtime allocates
  (8 bytes for each number, \<open>2 ^ 48\<close> bytes at most); it returns the empty slice when
  \<open>start = end + 1\<close>, where the capacity is zero; it panics when \<open>start > end + 1\<close>
  and \<open>end - start\<close> does not overflow, where the capacity is negative, and when the
  capacity is more than the runtime allocates. In every run of uploadMultipart with
  \<open>TotalParts + partURLBatchSize\<close> below \<open>2 ^ 63\<close> the call is made with
  \<open>start \<le> end\<close>: each request for URLs names the parts from \<open>p\<close> to the smaller of
  \<open>p + partURLBatchSize - 1\<close> and \<open>TotalParts\<close> for a part \<open>p\<close> between 1 and
  \<open>TotalParts\<close>, and the panic never happens.
\<close>

theorem C10_generatePartNumbers:
  "(- (2 ^ 63) \<le> start \<and> start \<le> endN \<and> endN < 2 ^ 63 - 1
      \<and> 8 * (endN - start + 1) \<le> maxAlloc \<longrightarrow>
      generatePartNumbers start endN = Some (Inr [start..endN])
      \<and> length [start..endN] = nat (endN - start + 1))
   \<and> (- (2 ^ 63) \<le> endN \<and> start < 2 ^ 63 \<and> start = endN + 1 \<longrightarrow>
        generatePartNumbers start endN = Some (Inr []))
   \<and> (endN + 1 < start \<and> - (2 ^ 63) \<le> endN - start \<longrightarrow>
        generatePartNumbers start endN
          = Some (Inl ''runtime error: makeslice: cap out of range''))
   \<and> (maxAlloc < 8 * (endN - start + 1) \<and> endN - start + 1 < 2 ^ 63 \<longrightarrow>
        generatePartNumbers start endN
          = Some (Inl ''runtime error: makeslice: cap out of range''))
   \<and> (TotalParts ir + partURLBatchSize < 2 ^ 63 \<and> uploadMultipart ir f env sched = Some s \<longrightarrow>
        list_all (urls_request_ok ir) (calls s)
        \<and> pc s \<noteq> Deferred (Panic ''runtime error: makeslice: cap out of range'')
        \<and> pc s \<noteq> Finished (Panic ''runtime error: makeslice: cap out of range'')
        \<and> (pc s = GetURL \<longrightarrow>
             partNum s \<le> min_go (int64 (int64 (partNum s + partURLBatchSize) - 1))
                               (TotalParts ir)))"
proof -
  have a: "- (2 ^ 63) \<le> start \<and> start \<le> endN \<and> endN < 2 ^ 63 - 1
      \<and> 8 * (endN - start + 1) \<le> maxAlloc \<longrightarrow>
      generatePartNumbers start endN = Some (Inr [start..endN])
      \<and> length [start..endN] = nat (endN - start + 1)"
    by (simp add: generatePartNumbers_range)
  have b: "- (2 ^ 63) \<le> endN \<and> start < 2 ^ 63 \<and> start = endN + 1 \<longrightarrow>
        generatePartNumbers start endN = Some (Inr [])"
    using generatePartNumbers_empty [of start endN] by blast
  have c: "endN + 1 < start \<and> - (2 ^ 63) \<le> endN - start \<longrightarrow>
        generatePartNumbers start endN
          = Some (Inl ''runtime error: makeslice: cap out of range'')"
    using generatePartNumbers_negative [of endN start] by blast
  have c': "maxAlloc < 8 * (endN - start + 1) \<and> endN - start + 1 < 2 ^ 63 \<longrightarrow>
        generatePartNumbers start endN
          = Some (Inl ''runtime error: makeslice: cap out of range'')"
    using generatePartNumbers_too_large [of endN start] by blast
  have d: "TotalParts ir + partURLBatchSize < 2 ^ 63 \<and> uploadMultipart ir f env sched = Some s \<longrightarrow>
        list_all (urls_request_ok ir) (calls s)
        \<and> pc s \<noteq> Deferred (Panic ''runtime error: makeslice: cap out of range'')
        \<and> pc s \<noteq> Finished (Panic ''runtime error: makeslice: cap out of range'')
        \<and> (pc s = GetURL \<longrightarrow>
             partNum s \<le> min_go (int64 (int64 (partNum s + partURLBatchSize) - 1))
                               (TotalParts ir))"
  proof
    assume h: "TotalParts ir + partURLBatchSize < 2 ^ 63 \<and> uploadMultipart ir f env sched = Some s"
    then have rng: "TotalParts ir + partURLBatchSize < 2 ^ 63"
      and r: "uploadMultipart ir f env sched = Some s" by simp_all
    have u: "inv_urls ir s" using reachable_inv_urls [OF rng r] .
    have ctl: "inv_ctl ir s" and prt: "inv_parts s" using reachable_invs [OF r] by simp_all
    have g: "partNum s \<le> min_go (int64 (int64 (partNum s + partURLBatchSize) - 1))
                               (TotalParts ir)" if "pc s = GetURL"
    proof -
      have le: "partNum s \<le> TotalParts ir" using ctl that by (auto simp: inv_ctl_def)
      have ge: "1 \<le> partNum s" using prt by (simp add: inv_parts_def)
      have w1: "int64 (partNum s + partURLBatchSize) = partNum s + partURLBatchSize"
        using le ge rng by (intro int64_id) (simp_all add: partURLBatchSize_def)
      have w2: "int64 (partNum s + partURLBatchSize - 1) = partNum s + partURLBatchSize - 1"
        using le ge rng by (intro int64_id) (simp_all add: partURLBatchSize_def)
      have "partNum s \<le> partNum s + partURLBatchSize - 1" by (simp add: partURLBatchSize_def)
      then show ?thesis using le unfolding w1 w2 min_go_def by simp
    qed
    have u1: "list_all (urls_request_ok ir) (calls s)"
      and u2: "pc s \<noteq> Deferred (Panic ''runtime error: makeslice: cap out of range'')"
      and u3: "pc s \<noteq> Finished (Panic ''runtime error: makeslice: cap out of range'')"
      using u unfolding inv_urls_def by blast+
    show "list_all (urls_request_ok ir) (calls s)
        \<and> pc s \<noteq> Deferred (Panic ''runtime error: makeslice: cap out of range'')
        \<and> pc s \<noteq> Finished (Panic ''runtime error: makeslice: cap out of range'')
        \<and> (pc s = GetURL \<longrightarrow>
             partNum s \<le> min_go (int64 (int64 (partNum s + partURLBatchSize) - 1))
                               (TotalParts ir))"
      using u1 u2 u3 g by blast
  qed
  show ?thesis by (intro conjI) (rule a, rule b, rule c, rule c', rule d)
qed

theorem C10_generatePartNumbers_witness:
  "generatePartNumbers 10 15 = Some (Inr [10, 11, 12, 13, 14, 15])
   \<and> generatePartNumbers 1 1 = Some (Inr [1])
   \<and> generatePartNumbers 3 1 = Some (Inl ''runtime error: makeslice: cap out of range'')
   \<and> generatePartNumbers 0 (2 ^ 45) = Some (Inl ''runtime error: makeslice: cap out of range'')
   \<and> TotalParts ex_response_no_urls + partURLBatchSize < 2 ^ 63
   \<and> map_option calls (uploadMultipart ex_response_no_urls 15 ex_env [Main, Main, Main])
       = Some [GetPartURLs CallerCtx ''up1'' [1, 2]]
   \<and> urls_request_ok ex_response_no_urls (GetPartURLs CallerCtx ''up1'' [1, 2])"
proof -
  have a: "generatePartNumbers 10 15 = Some (Inr [10, 11, 12, 13, 14, 15])"
    using C10_generatePartNumbers [of 10 15, THEN conjunct1] by (simp add: upto_rec1 maxAlloc_def)
  have b: "generatePartNumbers 1 1 = Some (Inr [1])"
    using C10_generatePartNumbers [of 1 1, THEN conjunct1] by (simp add: upto_rec1 maxAlloc_def)
  have c: "generatePartNumbers 3 1 = Some (Inl ''runtime error: makeslice: cap out of range'')"
    using C10_generatePartNumbers [of 3 1, THEN conjunct2, THEN conjunct2, THEN conjunct1]
    by simp
  have c': "generatePartNumbers 0 (2 ^ 45)
      = Some (Inl ''runtime error: makeslice: cap out of range'')"
    using C10_generatePartNumbers [of 0 "2 ^ 45",
        THEN conjunct2, THEN conjunct2, THEN conjunct2, THEN conjunct1]
    by (simp add: maxAlloc_def)
  have rng: "TotalParts ex_response_no_urls + partURLBatchSize < 2 ^ 63"
    by (simp add: ex_response_no_urls_def ex_response_def partURLBatchSize_def)
  have d: "map_option calls (uploadMultipart ex_response_no_urls 15 ex_env [Main, Main, Main])
       = Some [GetPartURLs CallerCtx ''up1'' [1, 2]]"
    by code_simp
  then obtain s where s: "uploadMultipart ex_response_no_urls 15 ex_env [Main, Main, Main] = Some s"
      "calls s = [GetPartURLs CallerCtx ''up1'' [1, 2]]"
    by auto
  have "list_all (urls_request_ok ex_response_no_urls) (calls s)"
    using C10_generatePartNumbers [of 1 1 ex_response_no_urls 15 ex_env "[Main, Main, Main]" s,
        THEN conjunct2, THEN conjunct2, THEN conjunct2, THEN conjunct2] s(1) rng
    by blast
  then have e: "urls_request_ok ex_response_no_urls (GetPartURLs CallerCtx ''up1'' [1, 2])"
    using s(2) by simp
  show ?thesis using a b c c' rng d e by blast
qed

text \<open>
  The claim as it was stated fails at \<open>start = 2\<close>, \<open>end = 1\<close>: \<open>start > end\<close>, the
  capacity is zero and not negative, and the function returns the empty slice.
\<close>

theorem C10_no_panic_counterexample:
  "(1::int) < 2 \<and> generatePartNumbers 2 1 = Some (Inr [])"
  by (simp add: generatePartNumbers_empty)

subsection \<open>Properties of the batch orchestrator\<close>

declare init_loop.simps [simp del] confirm_loop.simps [simp del]



lemma store_results_length [simp]: "length (store_results res batch) = length batch"
  by (simp add: store_results_def)


























text \<open>The same run, computed.\<close>

lemma batch_example_run:
  "transfers (uploadFilesBatch ex_world ex_paths) = [0, 1, 3, 4, 5, 6, 7, 8, 9]
   \<and> bo_errorCount (uploadFilesBatch ex_world ex_paths) = 1"
  by code_simp

end
